theory Spec2Isabelle
  imports Main "HOL-Library.Word"
begin

unbundle bit_operations_syntax

section \<open>Data model (main.h, main.c, led.c)\<close>

type_synonym u8 = "8 word"
type_synonym u32 = "32 word"

text \<open>Configuration constants of main.h.\<close>

definition MAX_TASKS :: nat where
  "MAX_TASKS = 5"

definition SIZE_TASK_STACK :: u32 where
  "SIZE_TASK_STACK = 1024"

definition SRAM_START :: u32 where
  "SRAM_START = 0x20000000"

definition SRAM_SIZE :: u32 where
  "SRAM_SIZE = 128 * 1024"

definition SRAM_END :: u32 where
  "SRAM_END = SRAM_START + SRAM_SIZE"

definition T1_STACK_START :: u32 where
  "T1_STACK_START = SRAM_END"

definition T2_STACK_START :: u32 where
  "T2_STACK_START = SRAM_END - 1 * SIZE_TASK_STACK"

definition T3_STACK_START :: u32 where
  "T3_STACK_START = SRAM_END - 2 * SIZE_TASK_STACK"

definition T4_STACK_START :: u32 where
  "T4_STACK_START = SRAM_END - 3 * SIZE_TASK_STACK"

definition IDLE_STACK_START :: u32 where
  "IDLE_STACK_START = SRAM_END - 4 * SIZE_TASK_STACK"

definition PENDSVSET_BIT :: nat where
  "PENDSVSET_BIT = 28"

definition DUMMY_XPSR :: u32 where
  "DUMMY_XPSR = 0x01000000"

definition TASK_READY_STATE :: u8 where
  "TASK_READY_STATE = 0x00"

definition TASK_BLOCKED_STATE :: u8 where
  "TASK_BLOCKED_STATE = 0xFF"

text \<open>The task control block \<open>TCB_t\<close>. A function pointer is the address it holds.\<close>

record TCB_t =
  psp_value :: u32
  block_count :: u32
  current_state :: u8
  task_handler :: u32

text \<open>
  The addresses the linker gives to the five task entry functions. They are not fixed by
  the source, so they are a parameter of the stack initialisation.
\<close>

record handlers =
  idle_handler :: u32
  task1_handler :: u32
  task2_handler :: u32
  task3_handler :: u32
  task4_handler :: u32

text \<open>
  The global variables of main.c together with the hardware cells its C code writes:
  the table \<open>user_tasks[MAX_TASKS]\<close>, \<open>g_tick_count\<close>, \<open>current_task\<close>, the
  interrupt control and state register at \<open>ICSR_ADDR\<close>, the \<open>PRIMASK\<close> register, and
  the memory of the task stacks, addressed by the byte address of each 32-bit word.
\<close>

record kernel =
  user_tasks :: "TCB_t list"
  g_tick_count :: u32
  current_task :: u8
  ICSR :: u32
  PRIMASK :: u32
  mem :: "u32 \<Rightarrow> u32"

definition PSP_INIT_ADDRS :: "u32 list" where
  "PSP_INIT_ADDRS =
     [IDLE_STACK_START, T1_STACK_START, T2_STACK_START, T3_STACK_START, T4_STACK_START]"

section \<open>The LED driver (led.c)\<close>

text \<open>
  \<open>led_on\<close> and \<open>led_off\<close> read, modify and write the output data register
  \<open>GPIOD_ODR\<close>; the register value is passed in and returned. The mask is
  \<open>1UL << led_no\<close> on a 32-bit \<open>unsigned long\<close>: a shift by 32 or more has no defined
  result in C, which is the value \<open>None\<close> here.
\<close>

definition led_on :: "u8 \<Rightarrow> u32 \<Rightarrow> u32 option" where
  "led_on led_no odr =
     (if unat led_no < 32 then Some (odr OR push_bit (unat led_no) 1) else None)"

definition led_off :: "u8 \<Rightarrow> u32 \<Rightarrow> u32 option" where
  "led_off led_no odr =
     (if unat led_no < 32 then Some (odr AND NOT (push_bit (unat led_no) 1)) else None)"

section \<open>Stack frame initialisation\<close>

text \<open>\<open>*--pPSP = v\<close>: step the pointer down one 32-bit word, then store.\<close>

definition push_word :: "u32 \<Rightarrow> u32 \<times> (u32 \<Rightarrow> u32) \<Rightarrow> u32 \<times> (u32 \<Rightarrow> u32)" where
  "push_word v pm = (case pm of (p, m) \<Rightarrow> (p - 4, m(p - 4 := v)))"

text \<open>\<open>for (int j = 0; j < n; ++j) { *--pPSP = 0; }\<close>\<close>

primrec push_zeros :: "nat \<Rightarrow> u32 \<times> (u32 \<Rightarrow> u32) \<Rightarrow> u32 \<times> (u32 \<Rightarrow> u32)" where
  "push_zeros 0 pm = pm"
| "push_zeros (Suc n) pm = push_zeros n (push_word 0 pm)"

text \<open>The body of the loop over the tasks in \<open>init_tasks_stack\<close>, for task \<open>i\<close>.\<close>

definition init_task_frame :: "nat \<Rightarrow> kernel \<Rightarrow> kernel" where
  "init_task_frame i s =
     (let t = (user_tasks s ! i)\<lparr>current_state := TASK_READY_STATE,
                                 psp_value := PSP_INIT_ADDRS ! i\<rparr>;
          pm0 = (psp_value t, mem s);
          pm1 = push_word DUMMY_XPSR pm0;
          pm2 = push_word (task_handler t) pm1;
          pm3 = push_word 0xFFFFFFFD pm2;
          pm4 = push_zeros 5 pm3;
          pm5 = push_zeros 8 pm4
      in s\<lparr>user_tasks := (user_tasks s)[i := t\<lparr>psp_value := fst pm5\<rparr>], mem := snd pm5\<rparr>)"

text \<open>
  \<open>for (int i = 0; i < MAX_TASKS; i++)\<close>, as recursion on the number of iterations
  still to run: \<open>init_frames n\<close> runs the iterations \<open>MAX_TASKS - n, ..., MAX_TASKS - 1\<close>.
\<close>

primrec init_frames :: "nat \<Rightarrow> kernel \<Rightarrow> kernel" where
  "init_frames 0 s = s"
| "init_frames (Suc n) s = init_frames n (init_task_frame (MAX_TASKS - Suc n) s)"

definition set_handler :: "nat \<Rightarrow> u32 \<Rightarrow> kernel \<Rightarrow> kernel" where
  "set_handler i h s =
     s\<lparr>user_tasks := (user_tasks s)[i := (user_tasks s ! i)\<lparr>task_handler := h\<rparr>]\<rparr>"

definition init_tasks_stack :: "handlers \<Rightarrow> kernel \<Rightarrow> kernel" where
  "init_tasks_stack h s =
     init_frames MAX_TASKS
       (set_handler 4 (task4_handler h)
         (set_handler 3 (task3_handler h)
           (set_handler 2 (task2_handler h)
             (set_handler 1 (task1_handler h)
               (set_handler 0 (idle_handler h) s)))))"

section \<open>The scheduler\<close>

definition get_psp_value :: "kernel \<Rightarrow> u32" where
  "get_psp_value s = psp_value (user_tasks s ! unat (current_task s))"

definition save_psp_value :: "u32 \<Rightarrow> kernel \<Rightarrow> kernel" where
  "save_psp_value current_psp s =
     s\<lparr>user_tasks := (user_tasks s)[unat (current_task s) :=
          (user_tasks s ! unat (current_task s))\<lparr>psp_value := current_psp\<rparr>]\<rparr>"

text \<open>
  The loop of \<open>update_current_task\<close>, as recursion on the number of iterations still to
  run. The pair is the values of \<open>current_task\<close> (an 8-bit variable: \<open>++\<close> wraps at 256
  before the remainder is taken) and of the local \<open>state\<close>; \<open>break\<close> returns at once.
\<close>

primrec scan_tasks :: "nat \<Rightarrow> TCB_t list \<Rightarrow> u8 \<times> u8 \<Rightarrow> u8 \<times> u8" where
  "scan_tasks 0 tasks cs = cs"
| "scan_tasks (Suc n) tasks cs =
     (let ct = (fst cs + 1) mod of_nat MAX_TASKS;
          state = current_state (tasks ! unat ct)
      in if state = TASK_READY_STATE \<and> ct \<noteq> 0 then (ct, state)
         else scan_tasks n tasks (ct, state))"

definition update_current_task :: "kernel \<Rightarrow> kernel" where
  "update_current_task s =
     (let cs = scan_tasks MAX_TASKS (user_tasks s) (current_task s, TASK_BLOCKED_STATE)
      in if snd cs = TASK_BLOCKED_STATE then s\<lparr>current_task := 0\<rparr>
         else s\<lparr>current_task := fst cs\<rparr>)"

text \<open>
  The loop of \<open>unblock_tasks\<close>: \<open>unblock_from n\<close> runs the iterations
  \<open>i = MAX_TASKS - n, ..., MAX_TASKS - 1\<close>.
\<close>

definition unblock_task :: "nat \<Rightarrow> kernel \<Rightarrow> kernel" where
  "unblock_task i s =
     (if current_state (user_tasks s ! i) \<noteq> TASK_READY_STATE
      then (if block_count (user_tasks s ! i) = g_tick_count s
            then s\<lparr>user_tasks := (user_tasks s)[i :=
                     (user_tasks s ! i)\<lparr>current_state := TASK_READY_STATE\<rparr>]\<rparr>
            else s)
      else s)"

primrec unblock_from :: "nat \<Rightarrow> kernel \<Rightarrow> kernel" where
  "unblock_from 0 s = s"
| "unblock_from (Suc n) s = unblock_from n (unblock_task (MAX_TASKS - Suc n) s)"

definition unblock_tasks :: "kernel \<Rightarrow> kernel" where
  "unblock_tasks s = unblock_from MAX_TASKS s"

definition update_global_tick_count :: "kernel \<Rightarrow> kernel" where
  "update_global_tick_count s = s\<lparr>g_tick_count := g_tick_count s + 1\<rparr>"

text \<open>\<open>*pICSR |= (1 << PENDSVSET_BIT)\<close>\<close>

definition schedule :: "kernel \<Rightarrow> kernel" where
  "schedule s = s\<lparr>ICSR := ICSR s OR push_bit PENDSVSET_BIT 1\<rparr>"

definition SysTick_Handler :: "kernel \<Rightarrow> kernel" where
  "SysTick_Handler s =
     (let s1 = update_global_tick_count s;
          s2 = unblock_tasks s1
      in s2\<lparr>ICSR := ICSR s2 OR push_bit PENDSVSET_BIT 1\<rparr>)"

definition INTERRUPT_DISABLE :: "kernel \<Rightarrow> kernel" where
  "INTERRUPT_DISABLE s = s\<lparr>PRIMASK := 1\<rparr>"

definition INTERRUPT_ENABLE :: "kernel \<Rightarrow> kernel" where
  "INTERRUPT_ENABLE s = s\<lparr>PRIMASK := 0\<rparr>"

text \<open>
  \<open>task_delay\<close> indexes \<open>user_tasks\<close> with \<open>current_task\<close>; an index outside the
  array has no defined behaviour in C, which is the value \<open>None\<close> here.
\<close>

definition task_delay :: "u32 \<Rightarrow> kernel \<Rightarrow> kernel option" where
  "task_delay tick_count s =
     (if unat (current_task s) < MAX_TASKS then
        (let s1 = INTERRUPT_DISABLE s;
             i = unat (current_task s1);
             s2 = s1\<lparr>user_tasks := (user_tasks s1)[i :=
                     (user_tasks s1 ! i)\<lparr>block_count := g_tick_count s1 + tick_count\<rparr>]\<rparr>;
             s3 = s2\<lparr>user_tasks := (user_tasks s2)[i :=
                     (user_tasks s2 ! i)\<lparr>current_state := TASK_BLOCKED_STATE\<rparr>]\<rparr>;
             s4 = schedule s3
         in Some (INTERRUPT_ENABLE s4))
      else None)"

text \<open>
  \<open>PendSV_Handler\<close> is assembly. Its effect on the variables of the C code is that of
  its two C callees: \<open>save_psp_value\<close>, called with the register R0 (the process stack
  pointer after the push of R4 to R11), then \<open>update_current_task\<close>. The register
  transfers themselves are outside this state.
\<close>

definition PendSV_Handler :: "u32 \<Rightarrow> kernel \<Rightarrow> kernel" where
  "PendSV_Handler r0 s = update_current_task (save_psp_value r0 s)"

section \<open>Runs of the system\<close>

text \<open>
  The events that change the kernel variables: a firing of the tick timer, the context
  switch exception (with the value of R0 it saves), and a call of \<open>task_delay\<close> by the
  running task. Only the four user tasks call \<open>task_delay\<close> (\<open>idle_handler\<close> never
  does), and the caller is the running task, whose entry \<open>current_task\<close> is READY:
  once it has blocked itself, the pended switch takes the processor before it can call
  again. Ticks and switches may come in any order and number.
\<close>

datatype event = Tick | Switch u32 | Delay u32

fun step :: "event \<Rightarrow> kernel \<Rightarrow> kernel option" where
  "step Tick s = Some (SysTick_Handler s)"
| "step (Switch r0) s = Some (PendSV_Handler r0 s)"
| "step (Delay d) s =
     (if unat (current_task s) < MAX_TASKS \<and> current_task s \<noteq> 0
         \<and> current_state (user_tasks s ! unat (current_task s)) = TASK_READY_STATE
      then task_delay d s else None)"

fun run :: "event list \<Rightarrow> kernel \<Rightarrow> kernel option" where
  "run [] s = Some s"
| "run (e # es) s = (case step e s of None \<Rightarrow> None | Some s' \<Rightarrow> run es s')"

definition ticks :: "event list \<Rightarrow> nat" where
  "ticks evs = length (filter (\<lambda>e. e = Tick) evs)"

fun is_Switch :: "event \<Rightarrow> bool" where
  "is_Switch (Switch r0) = True"
| "is_Switch e = False"

definition switches :: "event list \<Rightarrow> nat" where
  "switches evs = length (filter is_Switch evs)"

text \<open>
  Timer periods in which no task calls \<open>task_delay\<close>: the tick fires, then the switch
  it has pended runs and saves the given value of R0.
\<close>

definition tick_rounds :: "u32 list \<Rightarrow> event list" where
  "tick_rounds rs = concat (map (\<lambda>r0. [Tick, Switch r0]) rs)"

text \<open>
  The variables as the C start-up code leaves them before \<open>main\<close>: the table is zeroed,
  \<open>g_tick_count = 0\<close>, \<open>current_task = 1\<close>; the hardware cells hold what they hold.
\<close>

definition boot_kernel :: "u32 \<Rightarrow> u32 \<Rightarrow> (u32 \<Rightarrow> u32) \<Rightarrow> kernel" where
  "boot_kernel icsr primask m =
     \<lparr>user_tasks = replicate MAX_TASKS
        \<lparr>psp_value = 0, block_count = 0, current_state = 0, task_handler = 0\<rparr>,
      g_tick_count = 0, current_task = 1, ICSR = icsr, PRIMASK = primask, mem = m\<rparr>"

section \<open>The selection policy in the words of the specification\<close>

text \<open>
  The indices in the order of one revolution that starts after index \<open>c\<close>, the test
  "READY and not the idle index", and the tasks that pass it, in that order.
\<close>

definition scan_order :: "nat \<Rightarrow> nat list" where
  "scan_order c = map (\<lambda>k. (c + 1 + k) mod MAX_TASKS) [0..<MAX_TASKS]"

definition ready_user :: "TCB_t list \<Rightarrow> nat \<Rightarrow> bool" where
  "ready_user tasks i = (current_state (tasks ! i) = TASK_READY_STATE \<and> i \<noteq> 0)"

definition ready_in_scan_order :: "TCB_t list \<Rightarrow> nat \<Rightarrow> nat list" where
  "ready_in_scan_order tasks c = filter (ready_user tasks) (scan_order c)"

section \<open>Example states and observations\<close>

definition example_tcb :: "u8 \<Rightarrow> u32 \<Rightarrow> TCB_t" where
  "example_tcb st wake =
     \<lparr>psp_value = 0, block_count = wake, current_state = st, task_handler = 0\<rparr>"

definition example_kernel :: "TCB_t list \<Rightarrow> u32 \<Rightarrow> u8 \<Rightarrow> kernel" where
  "example_kernel ts g c =
     \<lparr>user_tasks = ts, g_tick_count = g, current_task = c, ICSR = 0, PRIMASK = 0,
      mem = (\<lambda>a. 0)\<rparr>"

text \<open>Idle READY; tasks 1 and 3 READY; tasks 2 and 4 BLOCKED until ticks 7 and 9.\<close>

definition mixed_tasks :: "TCB_t list" where
  "mixed_tasks = [example_tcb 0 0, example_tcb 0 0, example_tcb 0xFF 7,
                  example_tcb 0 0, example_tcb 0xFF 9]"

text \<open>Idle READY; every user task BLOCKED.\<close>

definition blocked_tasks :: "TCB_t list" where
  "blocked_tasks = [example_tcb 0 0, example_tcb 0xFF 7, example_tcb 0xFF 7,
                    example_tcb 0xFF 8, example_tcb 0xFF 9]"

text \<open>The \<open>n\<close> words below the address \<open>sp\<close>, from the top downward.\<close>

definition read_down :: "(u32 \<Rightarrow> u32) \<Rightarrow> u32 \<Rightarrow> nat \<Rightarrow> u32 list" where
  "read_down m sp n = map (\<lambda>k. m (sp - 4 * of_nat (Suc k))) [0..<n]"

text \<open>The entry function of each task, in the order of the table.\<close>

definition entry_points :: "handlers \<Rightarrow> u32 list" where
  "entry_points h =
     [idle_handler h, task1_handler h, task2_handler h, task3_handler h, task4_handler h]"

definition example_handlers :: handlers where
  "example_handlers = \<lparr>idle_handler = 0x08000401, task1_handler = 0x08000301,
     task2_handler = 0x08000321, task3_handler = 0x08000341, task4_handler = 0x08000361\<rparr>"

text \<open>Every task READY.\<close>

definition ready_tasks :: "TCB_t list" where
  "ready_tasks = [example_tcb 0 0, example_tcb 0 0, example_tcb 0 0, example_tcb 0 0,
                  example_tcb 0 0]"

text \<open>
  The switch pended by a delay call, then twelve timer periods.
\<close>

definition delay0_events :: "event list" where
  "delay0_events = Switch 0x2001FFA0 # tick_rounds
     [0x2001FBA0, 0x2001F7A0, 0x2001F3A0, 0x2001FBA0, 0x2001F7A0, 0x2001F3A0,
      0x2001FBA0, 0x2001F7A0, 0x2001F3A0, 0x2001FBA0, 0x2001F7A0, 0x2001F3A0]"

section \<open>Basic facts\<close>

lemma length5_cases:
  "length xs = 5 \<Longrightarrow> \<exists>a b c d e. xs = [a, b, c, d, e]"
  by (auto simp: length_Suc_conv eval_nat_numeral)

lemma less5_cases: "i < (5::nat) \<Longrightarrow> i = 0 \<or> i = 1 \<or> i = 2 \<or> i = 3 \<or> i = 4"
  by arith

lemma u8_less5_cases:
  "unat (c :: u8) < 5 \<Longrightarrow> c = 0 \<or> c = 1 \<or> c = 2 \<or> c = 3 \<or> c = 4"
proof -
  assume "unat c < 5"
  from less5_cases [OF this] have
    "unat c = unat (0::u8) \<or> unat c = unat (1::u8) \<or> unat c = unat (2::u8)
      \<or> unat c = unat (3::u8) \<or> unat c = unat (4::u8)"
    by simp
  then show ?thesis
    unfolding word_unat_eq_iff [symmetric] .
qed

lemma u8_mod5_cases:
  "(c :: u8) mod 5 = 0 \<or> c mod 5 = 1 \<or> c mod 5 = 2 \<or> c mod 5 = 3 \<or> c mod 5 = 4"
proof -
  have "unat (c mod 5) < 5"
    by (simp add: unat_mod)
  then show ?thesis by (rule u8_less5_cases)
qed

lemma MAX_TASKS_Suc: "MAX_TASKS = Suc (Suc (Suc (Suc (Suc 0))))"
  by (simp add: MAX_TASKS_def eval_nat_numeral)

lemma of_nat_MAX_TASKS: "(of_nat MAX_TASKS :: u8) = 5"
  by (simp add: MAX_TASKS_def)

section \<open>The LED driver\<close>

lemma led_on_bits:
  "unat n < 32 \<Longrightarrow>
   \<exists>r. led_on n odr = Some r \<and> (\<forall>k. bit r k = (k = unat n \<or> bit odr k))"
  by (auto simp: led_on_def bit_or_iff bit_push_bit_iff bit_1_iff bit_exp_iff)

lemma led_off_bits:
  "unat n < 32 \<Longrightarrow>
   \<exists>r. led_off n odr = Some r \<and> (\<forall>k. bit r k = (k \<noteq> unat n \<and> bit odr k))"
  by (auto simp: led_off_def bit_and_iff bit_not_iff bit_push_bit_iff bit_1_iff bit_exp_iff
      dest: bit_imp_le_length)

lemma led_on_then_off:
  "unat n < 32 \<Longrightarrow>
   Option.bind (led_on n odr) (led_off n) = Some (odr AND NOT (push_bit (unat n) 1))"
  by (auto simp: led_on_def led_off_def bit_or_iff bit_and_iff bit_not_iff
      bit_push_bit_iff bit_1_iff bit_exp_iff intro!: bit_eqI)

lemma clear_bit_id:
  "k < 32 \<Longrightarrow> ((odr :: u32) AND NOT (push_bit k 1) = odr) = (\<not> bit odr k)"
proof
  assume k: "k < 32" and e: "odr AND NOT (push_bit k 1) = odr"
  have "\<not> bit (odr AND NOT (push_bit k 1)) k"
    using k by (simp add: bit_and_iff bit_not_iff bit_push_bit_iff bit_1_iff bit_exp_iff)
  with e show "\<not> bit odr k" by simp
next
  assume k: "k < 32" and b: "\<not> bit odr k"
  show "odr AND NOT (push_bit k 1) = odr"
  proof (rule bit_eqI)
    fix j
    show "bit (odr AND NOT (push_bit k 1)) j = bit odr j"
      using b by (cases "j = k")
        (auto simp: bit_and_iff bit_not_iff bit_exp_iff dest: bit_imp_le_length)
  qed
qed

text \<open>
  C10, as the code has it. For every LED number \<open>n\<close> below 32 and every value of the
  output data register, \<open>led_on n\<close> sets bit \<open>n\<close> and changes no other bit, and
  \<open>led_off n\<close> clears bit \<open>n\<close> and changes no other bit. \<open>led_off n\<close> after
  \<open>led_on n\<close> gives the original value with bit \<open>n\<close> cleared; that is the original
  value exactly when bit \<open>n\<close> was clear before.
\<close>

theorem led_on_off_frame:
  assumes "unat n < 32"
  shows "(\<exists>r. led_on n odr = Some r \<and> (\<forall>k. bit r k = (k = unat n \<or> bit odr k)))
    \<and> (\<exists>r. led_off n odr = Some r \<and> (\<forall>k. bit r k = (k \<noteq> unat n \<and> bit odr k)))
    \<and> Option.bind (led_on n odr) (led_off n) = Some (odr AND NOT (push_bit (unat n) 1))
    \<and> ((Option.bind (led_on n odr) (led_off n) = Some odr) = (\<not> bit odr (unat n)))"
proof -
  have "(Option.bind (led_on n odr) (led_off n) = Some odr) = (\<not> bit odr (unat n))"
    using clear_bit_id [of "unat n" odr] assms by (simp add: led_on_then_off)
  then show ?thesis
    using led_on_bits [OF assms, of odr] led_off_bits [OF assms, of odr]
      led_on_then_off [OF assms, of odr]
    by blast
qed

theorem led_on_off_frame_witness:
  "unat (12 :: u8) < 32 \<and> led_on 12 0x2000 = Some 0x3000 \<and> led_off 12 0x3000 = Some 0x2000
    \<and> Option.bind (led_on 12 0x2000) (led_off 12) = Some 0x2000 \<and> \<not> bit (0x2000 :: u32) 12"
proof -
  have h: "unat (12 :: u8) < 32" by simp
  show ?thesis
    using led_on_off_frame [OF h, of "0x2000"]
    by (simp add: led_on_def led_off_def)
qed

text \<open>
  C10, as the claim states it, fails when the LED is already on: with bit 12 set,
  \<open>led_on 12\<close> leaves the register as it is and \<open>led_off 12\<close> then clears the bit, so
  the register does not return to its original value.
\<close>

theorem led_on_off_restore_counterexample:
  "Option.bind (led_on 12 0x1000) (led_off 12) = Some 0
    \<and> Option.bind (led_on 12 0x1000) (led_off 12) \<noteq> Some 0x1000"
  by (simp add: led_on_def led_off_def)

section \<open>The tick handler\<close>

lemma unblock_tasks_unfold:
  "unblock_tasks s =
     unblock_task 4 (unblock_task 3 (unblock_task 2 (unblock_task 1 (unblock_task 0 s))))"
  by (simp add: unblock_tasks_def MAX_TASKS_def eval_nat_numeral)

lemma unblock_task_frame [simp]:
  "g_tick_count (unblock_task i s) = g_tick_count s"
  "current_task (unblock_task i s) = current_task s"
  "ICSR (unblock_task i s) = ICSR s"
  "PRIMASK (unblock_task i s) = PRIMASK s"
  "mem (unblock_task i s) = mem s"
  "length (user_tasks (unblock_task i s)) = length (user_tasks s)"
  by (simp_all add: unblock_task_def)

lemma unblock_task_nth:
  "j < length (user_tasks s) \<Longrightarrow>
   user_tasks (unblock_task i s) ! j =
     (if j = i \<and> current_state (user_tasks s ! j) \<noteq> TASK_READY_STATE
         \<and> block_count (user_tasks s ! j) = g_tick_count s
      then (user_tasks s ! j)\<lparr>current_state := TASK_READY_STATE\<rparr>
      else user_tasks s ! j)"
  by (simp add: unblock_task_def)

lemma unblock_tasks_frame [simp]:
  "g_tick_count (unblock_tasks s) = g_tick_count s"
  "current_task (unblock_tasks s) = current_task s"
  "ICSR (unblock_tasks s) = ICSR s"
  "PRIMASK (unblock_tasks s) = PRIMASK s"
  "mem (unblock_tasks s) = mem s"
  "length (user_tasks (unblock_tasks s)) = length (user_tasks s)"
  by (simp_all add: unblock_tasks_unfold)

lemma unblock_tasks_nth:
  assumes "length (user_tasks s) = MAX_TASKS" and "i < MAX_TASKS"
  shows "user_tasks (unblock_tasks s) ! i =
     (if current_state (user_tasks s ! i) \<noteq> TASK_READY_STATE
         \<and> block_count (user_tasks s ! i) = g_tick_count s
      then (user_tasks s ! i)\<lparr>current_state := TASK_READY_STATE\<rparr>
      else user_tasks s ! i)"
proof -
  have i: "i < 5" and len: "length (user_tasks s) = 5"
    using assms by (simp_all add: MAX_TASKS_def)
  from less5_cases [OF i] show ?thesis
    by (elim disjE) (simp_all add: unblock_tasks_unfold unblock_task_nth len)
qed

lemma SysTick_frame [simp]:
  "g_tick_count (SysTick_Handler s) = g_tick_count s + 1"
  "current_task (SysTick_Handler s) = current_task s"
  "PRIMASK (SysTick_Handler s) = PRIMASK s"
  "mem (SysTick_Handler s) = mem s"
  "length (user_tasks (SysTick_Handler s)) = length (user_tasks s)"
  "ICSR (SysTick_Handler s) = ICSR s OR push_bit PENDSVSET_BIT 1"
  by (simp_all add: SysTick_Handler_def update_global_tick_count_def Let_def)

lemma SysTick_nth:
  assumes "length (user_tasks s) = MAX_TASKS" and "i < MAX_TASKS"
  shows "user_tasks (SysTick_Handler s) ! i =
     (if current_state (user_tasks s ! i) \<noteq> TASK_READY_STATE
         \<and> block_count (user_tasks s ! i) = g_tick_count s + 1
      then (user_tasks s ! i)\<lparr>current_state := TASK_READY_STATE\<rparr>
      else user_tasks s ! i)"
  using unblock_tasks_nth [of "update_global_tick_count s" i] assms
  by (simp add: SysTick_Handler_def Let_def update_global_tick_count_def)

lemma pend_bit_set:
  "bit ((w :: u32) OR push_bit PENDSVSET_BIT 1) PENDSVSET_BIT"
  "bit ((w :: u32) OR 2 ^ PENDSVSET_BIT) PENDSVSET_BIT"
  by (simp_all add: PENDSVSET_BIT_def bit_or_iff bit_push_bit_iff bit_exp_iff)

lemma SysTick_iterate_count:
  "g_tick_count ((SysTick_Handler ^^ n) s) = g_tick_count s + of_nat n"
  by (induction n) simp_all

text \<open>
  C3. In the unblock scan of the tick handler, a BLOCKED task becomes READY if and only
  if its \<open>block_count\<close> equals the new value of the tick counter (a test for equality,
  so a wake tick that is already past does not wake it); a task that is not woken keeps
  its whole TCB, and a READY task is never changed. The same holds of \<open>unblock_tasks\<close>
  alone, against the counter as it stands.
\<close>

theorem unblock_exact_equality:
  assumes "length (user_tasks s) = MAX_TASKS" and "i < MAX_TASKS"
  shows "(current_state (user_tasks s ! i) = TASK_BLOCKED_STATE \<longrightarrow>
            (current_state (user_tasks (SysTick_Handler s) ! i) = TASK_READY_STATE)
              = (block_count (user_tasks s ! i) = g_tick_count s + 1))
    \<and> (current_state (user_tasks s ! i) = TASK_BLOCKED_STATE \<longrightarrow>
            block_count (user_tasks s ! i) \<noteq> g_tick_count s + 1 \<longrightarrow>
            user_tasks (SysTick_Handler s) ! i = user_tasks s ! i)
    \<and> (current_state (user_tasks s ! i) = TASK_READY_STATE \<longrightarrow>
            user_tasks (SysTick_Handler s) ! i = user_tasks s ! i)
    \<and> (current_state (user_tasks s ! i) = TASK_BLOCKED_STATE \<longrightarrow>
            (current_state (user_tasks (unblock_tasks s) ! i) = TASK_READY_STATE)
              = (block_count (user_tasks s ! i) = g_tick_count s))
    \<and> (current_state (user_tasks s ! i) = TASK_READY_STATE \<longrightarrow>
            user_tasks (unblock_tasks s) ! i = user_tasks s ! i)"
  by (simp add: SysTick_nth [OF assms] unblock_tasks_nth [OF assms]
      TASK_BLOCKED_STATE_def TASK_READY_STATE_def)

theorem unblock_exact_equality_witness:
  "map current_state (user_tasks (SysTick_Handler (example_kernel mixed_tasks 6 1)))
     = [0, 0, 0, 0, 0xFF]
   \<and> map current_state (user_tasks (SysTick_Handler (example_kernel mixed_tasks 8 1)))
     = [0, 0, 0xFF, 0, 0]
   \<and> map current_state (user_tasks (SysTick_Handler (example_kernel mixed_tasks 9 1)))
     = [0, 0, 0xFF, 0, 0xFF]"
proof -
  have len: "length (user_tasks (example_kernel mixed_tasks g 1)) = MAX_TASKS" for g
    by (simp add: example_kernel_def mixed_tasks_def MAX_TASKS_def)
  have i: "2 < MAX_TASKS" "4 < MAX_TASKS"
    by (simp_all add: MAX_TASKS_def)
  have v: "map current_state (user_tasks (SysTick_Handler (example_kernel mixed_tasks 8 1)))
     = [0, 0, 0xFF, 0, 0]"
    "map current_state (user_tasks (SysTick_Handler (example_kernel mixed_tasks 9 1)))
     = [0, 0, 0xFF, 0, 0xFF]"
    by code_simp+
  have blk: "current_state (user_tasks (example_kernel mixed_tasks 6 1) ! 2) = TASK_BLOCKED_STATE"
    "block_count (user_tasks (example_kernel mixed_tasks 6 1) ! 2) = g_tick_count (example_kernel mixed_tasks 6 1) + 1"
    "current_state (user_tasks (example_kernel mixed_tasks 6 1) ! 4) = TASK_BLOCKED_STATE"
    "block_count (user_tasks (example_kernel mixed_tasks 6 1) ! 4) \<noteq> g_tick_count (example_kernel mixed_tasks 6 1) + 1"
    "map current_state (user_tasks (example_kernel mixed_tasks 6 1)) = [0, 0, 0xFF, 0, 0xFF]"
    by code_simp+
  have l: "length (user_tasks (SysTick_Handler (example_kernel mixed_tasks 6 1))) = 5"
    by code_simp
  from unblock_exact_equality [OF len i(1), of 6] blk
  have a: "current_state (user_tasks (SysTick_Handler (example_kernel mixed_tasks 6 1)) ! 2) = 0"
    by (simp add: TASK_READY_STATE_def)
  from unblock_exact_equality [OF len i(2), of 6] blk
  have b: "current_state (user_tasks (SysTick_Handler (example_kernel mixed_tasks 6 1)) ! 4) = 0xFF"
    by (simp add: TASK_BLOCKED_STATE_def)
  have c: "map current_state (user_tasks (SysTick_Handler (example_kernel mixed_tasks 6 1)))
     = [0, 0, 0, 0, 0xFF]"
    by code_simp
  from a b c v show ?thesis by simp
qed

section \<open>The delay primitive\<close>

lemma task_delay_Some:
  "unat (current_task s) < MAX_TASKS \<Longrightarrow>
   task_delay d s = Some (s\<lparr>user_tasks := (user_tasks s)[unat (current_task s) :=
       (user_tasks s ! unat (current_task s))
         \<lparr>block_count := g_tick_count s + d, current_state := TASK_BLOCKED_STATE\<rparr>],
     ICSR := ICSR s OR push_bit PENDSVSET_BIT 1, PRIMASK := 0\<rparr>)"
  by (cases "unat (current_task s) < length (user_tasks s)")
     (simp_all add: task_delay_def Let_def INTERRUPT_DISABLE_def INTERRUPT_ENABLE_def
        schedule_def list_update_beyond)

lemma task_delay_None:
  "\<not> unat (current_task s) < MAX_TASKS \<Longrightarrow> task_delay d s = None"
  by (simp add: task_delay_def)

text \<open>
  C4. When the current-task index is an index of the table, \<open>task_delay d\<close> returns; in
  the entry of the calling task it sets \<open>block_count\<close> to \<open>g_tick_count + d\<close> (in
  32-bit arithmetic) and \<open>current_state\<close> to BLOCKED and leaves \<open>psp_value\<close> and
  \<open>task_handler\<close> as they were; it sets the pend bit of ICSR; every other entry of the
  table, the tick counter, the current-task index and the stack memory are unchanged.
\<close>

theorem task_delay_effect:
  assumes "length (user_tasks s) = MAX_TASKS" and "unat (current_task s) < MAX_TASKS"
  shows "\<exists>s'. task_delay d s = Some s'
    \<and> block_count (user_tasks s' ! unat (current_task s)) = g_tick_count s + d
    \<and> current_state (user_tasks s' ! unat (current_task s)) = TASK_BLOCKED_STATE
    \<and> psp_value (user_tasks s' ! unat (current_task s))
        = psp_value (user_tasks s ! unat (current_task s))
    \<and> task_handler (user_tasks s' ! unat (current_task s))
        = task_handler (user_tasks s ! unat (current_task s))
    \<and> bit (ICSR s') PENDSVSET_BIT
    \<and> (\<forall>j. j \<noteq> unat (current_task s) \<longrightarrow> user_tasks s' ! j = user_tasks s ! j)
    \<and> length (user_tasks s') = length (user_tasks s)
    \<and> g_tick_count s' = g_tick_count s
    \<and> current_task s' = current_task s
    \<and> mem s' = mem s"
  using assms by (simp add: task_delay_Some pend_bit_set)

theorem task_delay_effect_witness:
  "(case task_delay 250 (example_kernel mixed_tasks 6 3) of
      None \<Rightarrow> False
    | Some s' \<Rightarrow> map block_count (user_tasks s') = [0, 0, 7, 256, 9]
        \<and> map current_state (user_tasks s') = [0, 0, 0xFF, 0xFF, 0xFF]
        \<and> g_tick_count s' = 6 \<and> current_task s' = 3 \<and> bit (ICSR s') 28)"
proof -
  have len: "length (user_tasks (example_kernel mixed_tasks 6 3)) = MAX_TASKS"
    and c: "unat (current_task (example_kernel mixed_tasks 6 3)) < MAX_TASKS"
    by code_simp+
  from task_delay_effect [OF len c, of 250]
  obtain s' where s': "task_delay 250 (example_kernel mixed_tasks 6 3) = Some s'"
    by blast
  have "map block_count (user_tasks (the (task_delay 250 (example_kernel mixed_tasks 6 3))))
      = [0, 0, 7, 256, 9]"
    "map current_state (user_tasks (the (task_delay 250 (example_kernel mixed_tasks 6 3))))
      = [0, 0, 0xFF, 0xFF, 0xFF]"
    "g_tick_count (the (task_delay 250 (example_kernel mixed_tasks 6 3))) = 6"
    "current_task (the (task_delay 250 (example_kernel mixed_tasks 6 3))) = 3"
    "bit (ICSR (the (task_delay 250 (example_kernel mixed_tasks 6 3)))) 28"
    by code_simp+
  with s' show ?thesis by simp
qed

section \<open>Tick accounting\<close>

text \<open>
  C9. Each firing of \<open>SysTick_Handler\<close> adds exactly 1 to the 32-bit tick counter, so
  \<open>n\<close> firings add \<open>n\<close> (modulo \<open>2 ^ 32\<close>, and as a number when the counter does not
  pass \<open>2 ^ 32\<close>). Within a firing the counter is incremented first, the unblock scan
  then runs against the incremented value, and the pend bit is set last.
\<close>

theorem tick_accounting:
  "g_tick_count (SysTick_Handler s) = g_tick_count s + 1
   \<and> g_tick_count ((SysTick_Handler ^^ n) s) = g_tick_count s + of_nat n
   \<and> (unat (g_tick_count s) + n < 2 ^ 32 \<longrightarrow>
        unat (g_tick_count ((SysTick_Handler ^^ n) s)) = unat (g_tick_count s) + n)
   \<and> SysTick_Handler s = schedule (unblock_tasks (update_global_tick_count s))
   \<and> user_tasks (SysTick_Handler s)
       = user_tasks (unblock_tasks (s\<lparr>g_tick_count := g_tick_count s + 1\<rparr>))
   \<and> bit (ICSR (SysTick_Handler s)) PENDSVSET_BIT"
proof -
  have "unat (g_tick_count s + of_nat n) = unat (g_tick_count s) + n"
    if "unat (g_tick_count s) + n < 2 ^ 32"
    using that by (simp add: unat_word_ariths unat_of_nat)
  then show ?thesis
    by (simp add: SysTick_iterate_count pend_bit_set)
       (simp add: SysTick_Handler_def schedule_def Let_def update_global_tick_count_def)
qed

theorem tick_accounting_witness:
  "unat (g_tick_count (example_kernel mixed_tasks 6 1)) + 3 < 2 ^ 32
   \<and> unat (g_tick_count ((SysTick_Handler ^^ 3) (example_kernel mixed_tasks 6 1))) = 9
   \<and> map current_state (user_tasks ((SysTick_Handler ^^ 3) (example_kernel mixed_tasks 6 1)))
       = [0, 0, 0, 0, 0]"
proof -
  have g: "unat (g_tick_count (example_kernel mixed_tasks 6 1)) = 6"
    by code_simp
  have f: "(SysTick_Handler ^^ 3) s = SysTick_Handler (SysTick_Handler (SysTick_Handler s))"
    for s
    by (simp add: numeral_3_eq_3)
  have m: "map current_state
      (user_tasks (SysTick_Handler (SysTick_Handler (SysTick_Handler
         (example_kernel mixed_tasks 6 1))))) = [0, 0, 0, 0, 0]"
    by code_simp
  have n: "unat (g_tick_count ((SysTick_Handler ^^ 3) (example_kernel mixed_tasks 6 1))) = 9"
    using tick_accounting [of "example_kernel mixed_tasks 6 1" 3,
        THEN conjunct2, THEN conjunct2, THEN conjunct1, rule_format] g
    by simp
  from g n m show ?thesis
    unfolding f by simp
qed

section \<open>The scheduler's selection\<close>

lemma update_current_task_frame [simp]:
  "user_tasks (update_current_task s) = user_tasks s"
  "g_tick_count (update_current_task s) = g_tick_count s"
  "ICSR (update_current_task s) = ICSR s"
  "PRIMASK (update_current_task s) = PRIMASK s"
  "mem (update_current_task s) = mem s"
  by (simp_all add: update_current_task_def Let_def)

lemma scan_order_simps:
  "scan_order 0 = [1, 2, 3, 4, 0]"
  "scan_order 1 = [2, 3, 4, 0, 1]"
  "scan_order 2 = [3, 4, 0, 1, 2]"
  "scan_order 3 = [4, 0, 1, 2, 3]"
  "scan_order 4 = [0, 1, 2, 3, 4]"
  by (simp_all add: scan_order_def MAX_TASKS_def upt_rec)

lemma scan_order_Suc0: "scan_order (Suc 0) = [2, 3, 4, 0, 1]"
  using scan_order_simps(2) by simp

lemma select_first:
  assumes len: "length (user_tasks s) = MAX_TASKS"
    and cur: "unat (current_task s) < MAX_TASKS"
    and ne: "ready_in_scan_order (user_tasks s) (unat (current_task s)) \<noteq> []"
  shows "unat (current_task (update_current_task s))
    = hd (ready_in_scan_order (user_tasks s) (unat (current_task s)))"
proof -
  from length5_cases [OF len [unfolded MAX_TASKS_def]]
  obtain a b c d e where ts: "user_tasks s = [a, b, c, d, e]"
    by blast
  from cur have "unat (current_task s) < 5" by (simp add: MAX_TASKS_def)
  from u8_less5_cases [OF this] ne show ?thesis
    by (elim disjE)
       (simp_all add: update_current_task_def MAX_TASKS_Suc of_nat_MAX_TASKS Let_def ts
          ready_in_scan_order_def ready_user_def scan_order_simps scan_order_Suc0
          TASK_READY_STATE_def TASK_BLOCKED_STATE_def split: if_splits)
qed

lemma filter_scan_order_rotate:
  assumes "c < MAX_TASKS" and "\<not> P 0" and "filter P (scan_order c) \<noteq> []"
  shows "filter P (scan_order (hd (filter P (scan_order c)))) = rotate1 (filter P (scan_order c))"
proof -
  from assms(1) have "c < 5" by (simp add: MAX_TASKS_def)
  from less5_cases [OF this] assms(2,3) show ?thesis
    by (elim disjE)
       (simp_all add: scan_order_simps scan_order_Suc0 split: if_splits)
qed

lemma scan_order_bound: "i \<in> set (scan_order c) \<Longrightarrow> i < MAX_TASKS"
  by (auto simp: scan_order_def MAX_TASKS_def)

lemma set_scan_order: "c < MAX_TASKS \<Longrightarrow> set (scan_order c) = {i. i < MAX_TASKS}"
proof -
  assume "c < MAX_TASKS"
  then have "c < 5" by (simp add: MAX_TASKS_def)
  from less5_cases [OF this] show ?thesis
    by (elim disjE) (auto simp: scan_order_simps scan_order_Suc0 MAX_TASKS_def)
qed

lemma distinct_scan_order: "c < MAX_TASKS \<Longrightarrow> distinct (scan_order c)"
proof -
  assume "c < MAX_TASKS"
  then have "c < 5" by (simp add: MAX_TASKS_def)
  from less5_cases [OF this] show ?thesis
    by (elim disjE) (simp_all add: scan_order_simps scan_order_Suc0)
qed

lemma ready_in_scan_order_bound:
  "i \<in> set (ready_in_scan_order tasks c) \<Longrightarrow> i < MAX_TASKS"
  by (auto simp: ready_in_scan_order_def dest: scan_order_bound)

lemma ready_in_scan_order_rotate:
  assumes "c < MAX_TASKS" and "ready_in_scan_order tasks c \<noteq> []"
  shows "ready_in_scan_order tasks (hd (ready_in_scan_order tasks c))
    = rotate1 (ready_in_scan_order tasks c)"
  using filter_scan_order_rotate [of c "ready_user tasks"] assms
  by (simp add: ready_in_scan_order_def ready_user_def)

lemma revolution_invariant:
  assumes len: "length (user_tasks s) = MAX_TASKS"
    and cur: "unat (current_task s) < MAX_TASKS"
    and ne: "ready_in_scan_order (user_tasks s) (unat (current_task s)) \<noteq> []"
  shows "user_tasks ((update_current_task ^^ k) s) = user_tasks s
    \<and> unat (current_task ((update_current_task ^^ k) s)) < MAX_TASKS
    \<and> ready_in_scan_order (user_tasks s) (unat (current_task ((update_current_task ^^ k) s)))
        = rotate k (ready_in_scan_order (user_tasks s) (unat (current_task s)))"
proof (induction k)
  case 0
  show ?case using cur by simp
next
  case (Suc k)
  let ?R = "ready_in_scan_order (user_tasks s) (unat (current_task s))"
  let ?sk = "(update_current_task ^^ k) s"
  from Suc.IH have ts: "user_tasks ?sk = user_tasks s"
    and ck: "unat (current_task ?sk) < MAX_TASKS"
    and rk: "ready_in_scan_order (user_tasks s) (unat (current_task ?sk)) = rotate k ?R"
    by simp_all
  from ne have rne: "rotate k ?R \<noteq> []" by simp
  have sel: "unat (current_task (update_current_task ?sk)) = hd (rotate k ?R)"
    using select_first [of ?sk] len ck rne by (simp add: ts rk)
  have "hd (rotate k ?R) \<in> set ?R"
    using rne hd_in_set [of "rotate k ?R"] by simp
  then have b: "hd (rotate k ?R) < MAX_TASKS"
    by (rule ready_in_scan_order_bound)
  have "ready_in_scan_order (user_tasks s) (hd (rotate k ?R)) = rotate1 (rotate k ?R)"
    using ready_in_scan_order_rotate [of "unat (current_task ?sk)" "user_tasks s"] ck rne
    by (simp add: rk)
  then show ?case
    using sel b by (simp add: ts)
qed

lemma revolution_nth:
  assumes len: "length (user_tasks s) = MAX_TASKS"
    and cur: "unat (current_task s) < MAX_TASKS"
    and ne: "ready_in_scan_order (user_tasks s) (unat (current_task s)) \<noteq> []"
  shows "unat (current_task ((update_current_task ^^ Suc k) s))
    = ready_in_scan_order (user_tasks s) (unat (current_task s))
        ! (k mod length (ready_in_scan_order (user_tasks s) (unat (current_task s))))"
proof -
  let ?R = "ready_in_scan_order (user_tasks s) (unat (current_task s))"
  let ?sk = "(update_current_task ^^ k) s"
  from revolution_invariant [OF assms, of k]
  have ts: "user_tasks ?sk = user_tasks s"
    and ck: "unat (current_task ?sk) < MAX_TASKS"
    and rk: "ready_in_scan_order (user_tasks s) (unat (current_task ?sk)) = rotate k ?R"
    by simp_all
  from ne have rne: "rotate k ?R \<noteq> []" by simp
  have "unat (current_task (update_current_task ?sk)) = hd (rotate k ?R)"
    using select_first [of ?sk] len ck rne by (simp add: ts rk)
  then show ?thesis
    using ne by (simp add: hd_rotate_conv_nth)
qed

text \<open>
  C6. When every non-idle task (indices 1 to 4) is BLOCKED, \<open>update_current_task\<close>
  sets the current-task index to the idle index 0, from every value of the 8-bit
  current-task variable.
\<close>

theorem idle_fallback:
  assumes "length (user_tasks s) = MAX_TASKS"
    and "\<forall>i. 0 < i \<and> i < MAX_TASKS \<longrightarrow>
      current_state (user_tasks s ! i) = TASK_BLOCKED_STATE"
  shows "current_task (update_current_task s) = 0"
proof -
  from length5_cases [OF assms(1) [unfolded MAX_TASKS_def]]
  obtain a b c d e where ts: "user_tasks s = [a, b, c, d, e]"
    by blast
  have st: "current_state b = 0xFF" "current_state c = 0xFF"
    "current_state d = 0xFF" "current_state e = 0xFF"
    using assms(2) [rule_format, of 1] assms(2) [rule_format, of 2]
      assms(2) [rule_format, of 3] assms(2) [rule_format, of 4]
    by (simp_all add: ts MAX_TASKS_def TASK_BLOCKED_STATE_def)
  from u8_mod5_cases [of "current_task s + 1"] show ?thesis
    by (elim disjE)
       (simp_all add: update_current_task_def MAX_TASKS_Suc of_nat_MAX_TASKS Let_def ts st
          TASK_READY_STATE_def TASK_BLOCKED_STATE_def)
qed

theorem idle_fallback_witness:
  "map current_state (user_tasks (example_kernel blocked_tasks 6 3)) = [0, 0xFF, 0xFF, 0xFF, 0xFF]
   \<and> current_task (update_current_task (example_kernel blocked_tasks 6 3)) = 0
   \<and> current_task (update_current_task (example_kernel blocked_tasks 6 0)) = 0"
proof -
  have len: "length (user_tasks (example_kernel blocked_tasks 6 c)) = MAX_TASKS" for c
    by (simp add: example_kernel_def blocked_tasks_def MAX_TASKS_def)
  have blk: "\<forall>i. 0 < i \<and> i < MAX_TASKS \<longrightarrow>
      current_state (user_tasks (example_kernel blocked_tasks 6 c) ! i) = TASK_BLOCKED_STATE" for c
  proof (intro allI impI)
    fix i assume "0 < i \<and> i < MAX_TASKS"
    then have "i = 1 \<or> i = 2 \<or> i = 3 \<or> i = 4"
      by (auto simp: MAX_TASKS_def)
    then show "current_state (user_tasks (example_kernel blocked_tasks 6 c) ! i)
        = TASK_BLOCKED_STATE"
      by (elim disjE)
         (simp_all add: example_kernel_def blocked_tasks_def example_tcb_def
            TASK_BLOCKED_STATE_def)
  qed
  have m: "map current_state (user_tasks (example_kernel blocked_tasks 6 3))
      = [0, 0xFF, 0xFF, 0xFF, 0xFF]"
    by code_simp
  from idle_fallback [OF len blk, of 3] idle_fallback [OF len blk, of 0] m
  show ?thesis by simp
qed

section \<open>Stack frames\<close>

lemma push_zeros_5:
  "push_zeros 5 pm = push_word 0 (push_word 0 (push_word 0 (push_word 0 (push_word 0 pm))))"
  by (simp add: eval_nat_numeral)

lemma push_zeros_8:
  "push_zeros 8 pm = push_word 0 (push_word 0 (push_word 0 (push_word 0 (push_word 0
     (push_word 0 (push_word 0 (push_word 0 pm)))))))"
  by (simp add: eval_nat_numeral)

lemma PSP_INIT_ADDRS_simps:
  "PSP_INIT_ADDRS = [0x2001F000, 0x20020000, 0x2001FC00, 0x2001F800, 0x2001F400]"
  by (simp add: PSP_INIT_ADDRS_def IDLE_STACK_START_def T1_STACK_START_def
      T2_STACK_START_def T3_STACK_START_def T4_STACK_START_def SRAM_END_def SRAM_START_def
      SRAM_SIZE_def SIZE_TASK_STACK_def)

lemma init_frames_unfold:
  "init_frames MAX_TASKS s =
     init_task_frame 4 (init_task_frame 3 (init_task_frame 2 (init_task_frame 1
       (init_task_frame 0 s))))"
  by (simp add: MAX_TASKS_def eval_nat_numeral)

lemma init_task_frame_tasks:
  "user_tasks (init_task_frame i s) =
     (user_tasks s)[i := (user_tasks s ! i)\<lparr>current_state := TASK_READY_STATE,
        psp_value := PSP_INIT_ADDRS ! i - 64\<rparr>]"
  by (simp add: init_task_frame_def Let_def push_zeros_5 push_zeros_8 push_word_def)

lemma init_task_frame_mem:
  "mem (init_task_frame i s) =
     (let sp = PSP_INIT_ADDRS ! i in
      (mem s)(sp - 4 := DUMMY_XPSR, sp - 8 := task_handler (user_tasks s ! i),
        sp - 12 := 0xFFFFFFFD,
        sp - 16 := 0, sp - 20 := 0, sp - 24 := 0, sp - 28 := 0, sp - 32 := 0,
        sp - 36 := 0, sp - 40 := 0, sp - 44 := 0, sp - 48 := 0, sp - 52 := 0,
        sp - 56 := 0, sp - 60 := 0, sp - 64 := 0))"
  by (simp add: init_task_frame_def Let_def push_zeros_5 push_zeros_8 push_word_def)

lemma init_task_frame_frame [simp]:
  "g_tick_count (init_task_frame i s) = g_tick_count s"
  "current_task (init_task_frame i s) = current_task s"
  "ICSR (init_task_frame i s) = ICSR s"
  "PRIMASK (init_task_frame i s) = PRIMASK s"
  "length (user_tasks (init_task_frame i s)) = length (user_tasks s)"
  by (simp_all add: init_task_frame_def Let_def)

lemma set_handler_frame [simp]:
  "g_tick_count (set_handler i a s) = g_tick_count s"
  "current_task (set_handler i a s) = current_task s"
  "ICSR (set_handler i a s) = ICSR s"
  "PRIMASK (set_handler i a s) = PRIMASK s"
  "mem (set_handler i a s) = mem s"
  "length (user_tasks (set_handler i a s)) = length (user_tasks s)"
  by (simp_all add: set_handler_def)

lemma init_tasks_stack_tasks:
  assumes "user_tasks s = [a, b, c, d, e]"
  shows "user_tasks (init_tasks_stack h s) =
    [a\<lparr>task_handler := idle_handler h, current_state := TASK_READY_STATE,
        psp_value := 0x2001F000 - 64\<rparr>,
     b\<lparr>task_handler := task1_handler h, current_state := TASK_READY_STATE,
        psp_value := 0x20020000 - 64\<rparr>,
     c\<lparr>task_handler := task2_handler h, current_state := TASK_READY_STATE,
        psp_value := 0x2001FC00 - 64\<rparr>,
     d\<lparr>task_handler := task3_handler h, current_state := TASK_READY_STATE,
        psp_value := 0x2001F800 - 64\<rparr>,
     e\<lparr>task_handler := task4_handler h, current_state := TASK_READY_STATE,
        psp_value := 0x2001F400 - 64\<rparr>]"
  by (simp add: init_tasks_stack_def init_frames_unfold init_task_frame_tasks
      set_handler_def assms PSP_INIT_ADDRS_simps)

lemma read_down_16:
  "read_down m sp 16 = [m (sp - 4), m (sp - 8), m (sp - 12), m (sp - 16), m (sp - 20),
     m (sp - 24), m (sp - 28), m (sp - 32), m (sp - 36), m (sp - 40), m (sp - 44),
     m (sp - 48), m (sp - 52), m (sp - 56), m (sp - 60), m (sp - 64)]"
  by (simp add: read_down_def upt_rec)

lemma init_writes_frames:
  assumes "user_tasks s = [a, b, c, d, e]"
  shows "read_down (mem (init_tasks_stack h s)) 0x2001F000 16
      = [DUMMY_XPSR, idle_handler h, 0xFFFFFFFD, 0, 0, 0, 0, 0, 0, 0, 0, 0, 0, 0, 0, 0]"
    and "read_down (mem (init_tasks_stack h s)) 0x20020000 16
      = [DUMMY_XPSR, task1_handler h, 0xFFFFFFFD, 0, 0, 0, 0, 0, 0, 0, 0, 0, 0, 0, 0, 0]"
    and "read_down (mem (init_tasks_stack h s)) 0x2001FC00 16
      = [DUMMY_XPSR, task2_handler h, 0xFFFFFFFD, 0, 0, 0, 0, 0, 0, 0, 0, 0, 0, 0, 0, 0]"
    and "read_down (mem (init_tasks_stack h s)) 0x2001F800 16
      = [DUMMY_XPSR, task3_handler h, 0xFFFFFFFD, 0, 0, 0, 0, 0, 0, 0, 0, 0, 0, 0, 0, 0]"
    and "read_down (mem (init_tasks_stack h s)) 0x2001F400 16
      = [DUMMY_XPSR, task4_handler h, 0xFFFFFFFD, 0, 0, 0, 0, 0, 0, 0, 0, 0, 0, 0, 0, 0]"
  by (simp_all add: read_down_16 init_tasks_stack_def init_frames_unfold init_task_frame_mem
      init_task_frame_tasks set_handler_def assms PSP_INIT_ADDRS_simps Let_def)

text \<open>
  C8. After \<open>init_tasks_stack\<close>, for every task \<open>i\<close> the sixteen words below its
  initial stack top \<open>PSP_INIT_ADDRS ! i\<close> are, from the top downward: the status word
  \<open>DUMMY_XPSR = 0x01000000\<close> (bit 24, the Thumb bit, set), the address of the task's
  entry function, the return value \<open>0xFFFFFFFD\<close>, five zero words (R12, R3 to R0) and
  eight zero words (R4 to R11). The saved stack pointer of the task is the initial top
  minus 16 words, the address of the last word written; the task is READY and its
  \<open>task_handler\<close> is its entry function.
\<close>

theorem init_tasks_stack_frame:
  assumes "length (user_tasks s) = MAX_TASKS" and "i < MAX_TASKS"
  shows "read_down (mem (init_tasks_stack h s)) (PSP_INIT_ADDRS ! i) 16
      = [DUMMY_XPSR, entry_points h ! i, 0xFFFFFFFD] @ replicate 5 0 @ replicate 8 0
    \<and> DUMMY_XPSR = 0x01000000 \<and> bit DUMMY_XPSR 24
    \<and> psp_value (user_tasks (init_tasks_stack h s) ! i) = PSP_INIT_ADDRS ! i - 4 * 16
    \<and> task_handler (user_tasks (init_tasks_stack h s) ! i) = entry_points h ! i
    \<and> current_state (user_tasks (init_tasks_stack h s) ! i) = TASK_READY_STATE
    \<and> length (user_tasks (init_tasks_stack h s)) = MAX_TASKS"
proof -
  from length5_cases [OF assms(1) [unfolded MAX_TASKS_def]]
  obtain a b c d e where ts: "user_tasks s = [a, b, c, d, e]"
    by blast
  have x: "DUMMY_XPSR = 0x01000000 \<and> bit DUMMY_XPSR 24"
    by (simp add: DUMMY_XPSR_def)
  have r: "replicate 5 (0::u32) = [0, 0, 0, 0, 0]"
    "replicate 8 (0::u32) = [0, 0, 0, 0, 0, 0, 0, 0]"
    by (simp_all add: eval_nat_numeral)
  from assms(2) have "i < 5" by (simp add: MAX_TASKS_def)
  from less5_cases [OF this] show ?thesis
    by (elim disjE)
       (simp_all add: x r init_writes_frames [OF ts] init_tasks_stack_tasks [OF ts]
          PSP_INIT_ADDRS_simps entry_points_def MAX_TASKS_def)
qed

theorem init_tasks_stack_frame_witness:
  "read_down (mem (init_tasks_stack example_handlers (boot_kernel 0 0 (\<lambda>a. 0)))) 0x20020000 16
      = [0x01000000, 0x08000301, 0xFFFFFFFD, 0, 0, 0, 0, 0, 0, 0, 0, 0, 0, 0, 0, 0]
   \<and> psp_value (user_tasks (init_tasks_stack example_handlers (boot_kernel 0 0 (\<lambda>a. 0))) ! 1)
      = 0x2001FFC0"
proof -
  have len: "length (user_tasks (boot_kernel 0 0 (\<lambda>a. 0))) = MAX_TASKS"
    by (simp add: boot_kernel_def)
  have i: "1 < MAX_TASKS"
    by (simp add: MAX_TASKS_def)
  have r: "replicate 5 (0::u32) = [0, 0, 0, 0, 0]"
    "replicate 8 (0::u32) = [0, 0, 0, 0, 0, 0, 0, 0]"
    by (simp_all add: eval_nat_numeral)
  from init_tasks_stack_frame [OF len i, of example_handlers] show ?thesis
    by (simp add: r PSP_INIT_ADDRS_simps entry_points_def example_handlers_def)
qed

section \<open>Runs\<close>

lemma unat_mod_MAX_TASKS: "unat ((x :: u8) mod of_nat MAX_TASKS) < MAX_TASKS"
  by (simp add: MAX_TASKS_def unat_mod)

lemma scan_tasks_bound:
  "unat (fst (scan_tasks (Suc n) tasks cs)) < MAX_TASKS"
proof (induction n arbitrary: cs)
  case 0
  show ?case by (simp add: Let_def unat_mod_MAX_TASKS)
next
  case (Suc n)
  let ?ct = "(fst cs + 1) mod of_nat MAX_TASKS"
  let ?st = "current_state (tasks ! unat ?ct)"
  have e: "scan_tasks (Suc (Suc n)) tasks cs =
      (if ?st = TASK_READY_STATE \<and> ?ct \<noteq> 0 then (?ct, ?st)
       else scan_tasks (Suc n) tasks (?ct, ?st))"
    by (simp add: Let_def)
  show ?case
    unfolding e using Suc.IH [of "(?ct, ?st)"] unat_mod_MAX_TASKS [of "fst cs + 1"]
    by (simp del: scan_tasks.simps)
qed

lemma update_current_task_bound:
  "unat (current_task (update_current_task s)) < MAX_TASKS"
proof -
  have m: "MAX_TASKS = Suc 4" by (simp add: MAX_TASKS_def)
  have "unat (fst (scan_tasks MAX_TASKS (user_tasks s) (current_task s, TASK_BLOCKED_STATE)))
      < MAX_TASKS"
    unfolding m by (rule scan_tasks_bound [unfolded m])
  then show ?thesis
    by (simp add: update_current_task_def Let_def MAX_TASKS_def)
qed

lemma scan_tasks_states:
  assumes "length tasks = MAX_TASKS" and "length tasks' = MAX_TASKS"
    and "\<forall>i. i < MAX_TASKS \<longrightarrow> current_state (tasks ! i) = current_state (tasks' ! i)"
  shows "scan_tasks n tasks cs = scan_tasks n tasks' cs"
proof (induction n arbitrary: cs)
  case 0
  show ?case by simp
next
  case (Suc n)
  have "current_state (tasks ! unat ((fst cs + 1) mod of_nat MAX_TASKS))
      = current_state (tasks' ! unat ((fst cs + 1) mod of_nat MAX_TASKS))"
    using assms(3) unat_mod_MAX_TASKS by blast
  then show ?case
    using Suc.IH by (simp add: Let_def)
qed

lemma save_psp_value_frame [simp]:
  "g_tick_count (save_psp_value r0 s) = g_tick_count s"
  "current_task (save_psp_value r0 s) = current_task s"
  "ICSR (save_psp_value r0 s) = ICSR s"
  "PRIMASK (save_psp_value r0 s) = PRIMASK s"
  "mem (save_psp_value r0 s) = mem s"
  "length (user_tasks (save_psp_value r0 s)) = length (user_tasks s)"
  by (simp_all add: save_psp_value_def)

lemma save_psp_value_nth:
  "current_state (user_tasks (save_psp_value r0 s) ! i) = current_state (user_tasks s ! i)"
  "block_count (user_tasks (save_psp_value r0 s) ! i) = block_count (user_tasks s ! i)"
  by (cases "unat (current_task s) < length (user_tasks s)";
      cases "i = unat (current_task s)";
      simp add: save_psp_value_def list_update_beyond)+

lemma PendSV_frame [simp]:
  "g_tick_count (PendSV_Handler r0 s) = g_tick_count s"
  "ICSR (PendSV_Handler r0 s) = ICSR s"
  "PRIMASK (PendSV_Handler r0 s) = PRIMASK s"
  "mem (PendSV_Handler r0 s) = mem s"
  "length (user_tasks (PendSV_Handler r0 s)) = length (user_tasks s)"
  by (simp_all add: PendSV_Handler_def)

lemma PendSV_nth [simp]:
  "current_state (user_tasks (PendSV_Handler r0 s) ! i) = current_state (user_tasks s ! i)"
  "block_count (user_tasks (PendSV_Handler r0 s) ! i) = block_count (user_tasks s ! i)"
  by (simp_all add: PendSV_Handler_def save_psp_value_nth)

lemma PendSV_bound: "unat (current_task (PendSV_Handler r0 s)) < MAX_TASKS"
  by (simp add: PendSV_Handler_def update_current_task_bound)

lemma PendSV_current_task:
  assumes "length (user_tasks s) = MAX_TASKS"
  shows "current_task (PendSV_Handler r0 s) = current_task (update_current_task s)"
proof -
  have "scan_tasks MAX_TASKS (user_tasks (save_psp_value r0 s)) cs
      = scan_tasks MAX_TASKS (user_tasks s) cs" for cs
    by (rule scan_tasks_states) (simp_all add: assms save_psp_value_nth)
  then show ?thesis
    by (simp add: PendSV_Handler_def update_current_task_def Let_def)
qed

lemma task_delay_nth:
  assumes "task_delay d s = Some s'" and "i \<noteq> unat (current_task s)"
  shows "user_tasks s' ! i = user_tasks s ! i"
proof (cases "unat (current_task s) < MAX_TASKS")
  case True
  with assms show ?thesis by (auto simp: task_delay_Some)
next
  case False
  with assms show ?thesis by (simp add: task_delay_None)
qed

lemma task_delay_frame:
  assumes "task_delay d s = Some s'"
  shows "g_tick_count s' = g_tick_count s" and "current_task s' = current_task s"
    and "length (user_tasks s') = length (user_tasks s)"
    and "unat (current_task s) < MAX_TASKS"
proof -
  have c: "unat (current_task s) < MAX_TASKS"
    using assms by (cases "unat (current_task s) < MAX_TASKS") (simp_all add: task_delay_None)
  with assms show "g_tick_count s' = g_tick_count s" "current_task s' = current_task s"
    "length (user_tasks s') = length (user_tasks s)" "unat (current_task s) < MAX_TASKS"
    by (auto simp: task_delay_Some)
qed

lemma task_delay_self:
  assumes "task_delay d s = Some s'" and "length (user_tasks s) = MAX_TASKS"
  shows "current_state (user_tasks s' ! unat (current_task s)) = TASK_BLOCKED_STATE"
    and "block_count (user_tasks s' ! unat (current_task s)) = g_tick_count s + d"
  using assms task_delay_frame(4) [OF assms(1)] by (auto simp: task_delay_Some)

lemma run_append:
  "run (p @ q) s = (case run p s of None \<Rightarrow> None | Some s' \<Rightarrow> run q s')"
  by (induction p arbitrary: s) (simp_all split: option.splits)

lemma ticks_simps [simp]:
  "ticks [] = 0"
  "ticks (Tick # evs) = Suc (ticks evs)"
  "ticks (Switch r0 # evs) = ticks evs"
  "ticks (Delay d # evs) = ticks evs"
  "ticks (p @ q) = ticks p + ticks q"
  by (simp_all add: ticks_def)

lemma switches_simps [simp]:
  "switches [] = 0"
  "switches (Tick # evs) = switches evs"
  "switches (Switch r0 # evs) = Suc (switches evs)"
  "switches (Delay d # evs) = switches evs"
  "switches (p @ q) = switches p + switches q"
  by (simp_all add: switches_def)

lemma BLOCKED_not_READY: "TASK_BLOCKED_STATE \<noteq> TASK_READY_STATE"
  by (simp add: TASK_BLOCKED_STATE_def TASK_READY_STATE_def)

lemma step_length:
  "step e s = Some s' \<Longrightarrow> length (user_tasks s') = length (user_tasks s)"
  by (cases e) (auto simp: task_delay_frame split: if_splits)

lemma step_idle_ready:
  assumes "step e s = Some s'" and "length (user_tasks s) = MAX_TASKS"
    and "current_state (user_tasks s ! 0) = TASK_READY_STATE"
  shows "current_state (user_tasks s' ! 0) = TASK_READY_STATE"
proof (cases e)
  case Tick
  with assms show ?thesis
    by (auto simp: SysTick_nth MAX_TASKS_def)
next
  case (Switch r0)
  with assms show ?thesis by auto
next
  case (Delay d)
  with assms have d: "task_delay d s = Some s'" and c: "current_task s \<noteq> 0"
    by (auto split: if_splits)
  from c have "0 \<noteq> unat (current_task s)"
    by (simp add: unat_eq_0)
  from task_delay_nth [OF d this] assms(3) show ?thesis by simp
qed

lemma run_idle_ready:
  assumes "run evs s = Some s'" and "length (user_tasks s) = MAX_TASKS"
    and "current_state (user_tasks s ! 0) = TASK_READY_STATE"
  shows "length (user_tasks s') = MAX_TASKS
    \<and> current_state (user_tasks s' ! 0) = TASK_READY_STATE"
  using assms
proof (induction evs arbitrary: s)
  case Nil
  then show ?case by simp
next
  case (Cons e es)
  from Cons.prems(1) obtain s1 where s1: "step e s = Some s1" and r: "run es s1 = Some s'"
    by (auto split: option.splits)
  from step_length [OF s1] Cons.prems(2) have "length (user_tasks s1) = MAX_TASKS"
    by simp
  moreover from step_idle_ready [OF s1 Cons.prems(2,3)]
  have "current_state (user_tasks s1 ! 0) = TASK_READY_STATE" .
  ultimately show ?case using Cons.IH [OF r] by simp
qed

lemma init_tasks_stack_boot:
  "length (user_tasks (init_tasks_stack h (boot_kernel icsr primask m))) = MAX_TASKS"
  "current_state (user_tasks (init_tasks_stack h (boot_kernel icsr primask m)) ! 0)
     = TASK_READY_STATE"
proof -
  have "user_tasks (boot_kernel icsr primask m) =
      [\<lparr>psp_value = 0, block_count = 0, current_state = 0, task_handler = 0\<rparr>,
       \<lparr>psp_value = 0, block_count = 0, current_state = 0, task_handler = 0\<rparr>,
       \<lparr>psp_value = 0, block_count = 0, current_state = 0, task_handler = 0\<rparr>,
       \<lparr>psp_value = 0, block_count = 0, current_state = 0, task_handler = 0\<rparr>,
       \<lparr>psp_value = 0, block_count = 0, current_state = 0, task_handler = 0\<rparr>]"
    by (simp add: boot_kernel_def MAX_TASKS_Suc)
  from init_tasks_stack_tasks [OF this, of h]
  show "length (user_tasks (init_tasks_stack h (boot_kernel icsr primask m))) = MAX_TASKS"
    "current_state (user_tasks (init_tasks_stack h (boot_kernel icsr primask m)) ! 0)
      = TASK_READY_STATE"
    by (simp_all add: MAX_TASKS_def)
qed

lemma stays_blocked:
  assumes "run evs s = Some s'" and "length (user_tasks s) = MAX_TASKS" and "c < MAX_TASKS"
    and "current_state (user_tasks s ! c) = TASK_BLOCKED_STATE"
    and "block_count (user_tasks s ! c) = b"
    and "\<forall>j. 0 < j \<and> j \<le> ticks evs \<longrightarrow> g_tick_count s + of_nat j \<noteq> b"
  shows "length (user_tasks s') = MAX_TASKS
    \<and> current_state (user_tasks s' ! c) = TASK_BLOCKED_STATE
    \<and> block_count (user_tasks s' ! c) = b
    \<and> g_tick_count s' = g_tick_count s + of_nat (ticks evs)"
  using assms
proof (induction evs arbitrary: s)
  case Nil
  then show ?case by simp
next
  case (Cons e es)
  from Cons.prems(1) obtain s1 where s1: "step e s = Some s1" and r: "run es s1 = Some s'"
    by (auto split: option.splits)
  have len1: "length (user_tasks s1) = MAX_TASKS"
    using step_length [OF s1] Cons.prems(2) by simp
  show ?case
  proof (cases e)
    case Tick
    have s1d: "s1 = SysTick_Handler s" using s1 Tick by simp
    have "g_tick_count s + of_nat 1 \<noteq> b"
      using Cons.prems(6) Tick by (intro Cons.prems(6) [rule_format]) simp
    then have ne: "block_count (user_tasks s ! c) \<noteq> g_tick_count s + 1"
      using Cons.prems(5) by auto
    have keep: "user_tasks s1 ! c = user_tasks s ! c"
      using ne by (simp add: s1d SysTick_nth [OF Cons.prems(2,3)])
    have later: "\<forall>j. 0 < j \<and> j \<le> ticks es \<longrightarrow> g_tick_count s1 + of_nat j \<noteq> b"
    proof (intro allI impI)
      fix j assume j: "0 < j \<and> j \<le> ticks es"
      then have "g_tick_count s + of_nat (Suc j) \<noteq> b"
        using Tick by (intro Cons.prems(6) [rule_format]) simp
      then show "g_tick_count s1 + of_nat j \<noteq> b"
        by (simp add: s1d ac_simps)
    qed
    from Cons.IH [OF r len1 Cons.prems(3) _ _ later] keep Cons.prems(4,5)
    show ?thesis
      by (simp add: Tick s1d ac_simps)
  next
    case (Switch r0)
    have s1d: "s1 = PendSV_Handler r0 s" using s1 Switch by simp
    have later: "\<forall>j. 0 < j \<and> j \<le> ticks es \<longrightarrow> g_tick_count s1 + of_nat j \<noteq> b"
      using Cons.prems(6) by (simp add: s1d Switch)
    from Cons.IH [OF r len1 Cons.prems(3) _ _ later] Cons.prems(4,5)
    show ?thesis
      by (simp add: s1d Switch)
  next
    case (Delay d)
    from s1 Delay have d: "task_delay d s = Some s1"
      and rdy: "current_state (user_tasks s ! unat (current_task s)) = TASK_READY_STATE"
      by (auto split: if_splits)
    from rdy Cons.prems(4) have "c \<noteq> unat (current_task s)"
      using BLOCKED_not_READY by auto
    from task_delay_nth [OF d this] have keep: "user_tasks s1 ! c = user_tasks s ! c" .
    have later: "\<forall>j. 0 < j \<and> j \<le> ticks es \<longrightarrow> g_tick_count s1 + of_nat j \<noteq> b"
      using Cons.prems(6) by (simp add: task_delay_frame(1) [OF d] Delay)
    from Cons.IH [OF r len1 Cons.prems(3) _ _ later] keep Cons.prems(4,5)
    show ?thesis
      by (simp add: task_delay_frame(1) [OF d] Delay)
  qed
qed

text \<open>
  C7. Start from the variables as they are before \<open>main\<close>, run \<open>init_tasks_stack\<close>, and
  then any sequence of tick firings, context switches and \<open>task_delay\<close> calls by the
  running user task: in the state reached, the entry of the idle task (index 0) is READY.
\<close>

theorem idle_always_ready:
  assumes "run evs (init_tasks_stack h (boot_kernel icsr primask m)) = Some s"
  shows "current_state (user_tasks s ! 0) = TASK_READY_STATE"
  using run_idle_ready [OF assms init_tasks_stack_boot] by simp

theorem idle_always_ready_witness:
  "(case run [Delay 3, Switch 0x2001FFA0, Tick, Delay 5, Switch 0x2001FBA0, Tick]
           (init_tasks_stack example_handlers (boot_kernel 0 0 (\<lambda>a. 0))) of
      None \<Rightarrow> False
    | Some s \<Rightarrow> current_state (user_tasks s ! 0) = 0
        \<and> map current_state (user_tasks s) = [0, 0xFF, 0xFF, 0, 0] \<and> current_task s = 3)"
proof -
  let ?evs = "[Delay 3, Switch 0x2001FFA0, Tick, Delay 5, Switch 0x2001FBA0, Tick]"
  let ?K = "init_tasks_stack example_handlers (boot_kernel 0 0 (\<lambda>a. 0))"
  have v: "(case run ?evs ?K of None \<Rightarrow> False
    | Some s \<Rightarrow> map current_state (user_tasks s) = [0, 0xFF, 0xFF, 0, 0] \<and> current_task s = 3)"
    by code_simp
  then obtain s where s: "run ?evs ?K = Some s"
    by (auto split: option.splits)
  from idle_always_ready [OF s] v s show ?thesis
    by (simp add: TASK_READY_STATE_def)
qed

lemma of_nat_neq_u32:
  assumes "j < unat (d :: u32)"
  shows "of_nat j \<noteq> d"
proof
  assume "of_nat j = d"
  then have "unat (of_nat j :: u32) = unat d" by simp
  moreover have "j < 2 ^ 32"
    using assms unsigned_less [of d, where 'a = nat] by simp
  ultimately show False
    using assms by (simp add: unat_of_nat)
qed

text \<open>
  C5. Let the task at the current-task index call \<open>task_delay d\<close> with \<open>d\<close> positive when
  the tick counter is \<open>T\<close>. After any run of ticks, switches and delay calls of running
  tasks that holds fewer than \<open>d\<close> ticks, the caller is still BLOCKED, so no firing
  before tick \<open>T + d\<close> has made it READY; and when the run holds \<open>d - 1\<close> ticks, the next
  firing brings the counter to \<open>T + d\<close> and makes the caller READY.
\<close>

theorem delay_accuracy:
  assumes "length (user_tasks s) = MAX_TASKS" and "task_delay d s = Some s1" and "d \<noteq> 0"
    and "run evs s1 = Some s2"
  shows "(ticks evs < unat d \<longrightarrow>
            current_state (user_tasks s2 ! unat (current_task s)) = TASK_BLOCKED_STATE
            \<and> g_tick_count s2 = g_tick_count s + of_nat (ticks evs))
    \<and> (ticks evs = unat d - 1 \<longrightarrow>
            current_state (user_tasks (SysTick_Handler s2) ! unat (current_task s))
              = TASK_READY_STATE
            \<and> g_tick_count (SysTick_Handler s2) = g_tick_count s + d)"
proof -
  let ?c = "unat (current_task s)"
  note fr = task_delay_frame [OF assms(2)]
  note self = task_delay_self [OF assms(2,1)]
  have len1: "length (user_tasks s1) = MAX_TASKS"
    using fr(3) assms(1) by simp
  have sleep: "length (user_tasks s2) = MAX_TASKS
      \<and> current_state (user_tasks s2 ! ?c) = TASK_BLOCKED_STATE
      \<and> block_count (user_tasks s2 ! ?c) = g_tick_count s + d
      \<and> g_tick_count s2 = g_tick_count s + of_nat (ticks evs)"
    if lt: "ticks evs < unat d"
  proof -
    have "\<forall>j. 0 < j \<and> j \<le> ticks evs \<longrightarrow> g_tick_count s1 + of_nat j \<noteq> g_tick_count s + d"
    proof (intro allI impI)
      fix j assume "0 < j \<and> j \<le> ticks evs"
      with lt have "j < unat d" by simp
      from of_nat_neq_u32 [OF this]
      show "g_tick_count s1 + of_nat j \<noteq> g_tick_count s + d"
        by (simp add: fr(1))
    qed
    from stays_blocked [OF assms(4) len1 fr(4) self(1) self(2) this]
    show ?thesis by (simp add: fr(1))
  qed
  have wake: "current_state (user_tasks (SysTick_Handler s2) ! ?c) = TASK_READY_STATE
      \<and> g_tick_count (SysTick_Handler s2) = g_tick_count s + d"
    if eq: "ticks evs = unat d - 1"
  proof -
    have pos: "0 < unat d"
      using assms(3) by (simp add: unat_gt_0)
    with eq have lt: "ticks evs < unat d" by simp
    have "of_nat (ticks evs) + 1 = (of_nat (Suc (ticks evs)) :: u32)" by simp
    also have "Suc (ticks evs) = unat d" using eq pos by simp
    finally have g: "of_nat (ticks evs) + 1 = d" by simp
    have "g_tick_count s2 + 1 = g_tick_count s + d"
      using sleep [OF lt] g by (simp add: add.assoc)
    with sleep [OF lt] show ?thesis
      using SysTick_nth [of s2 ?c] fr(4) BLOCKED_not_READY by simp
  qed
  from sleep wake show ?thesis by blast
qed

theorem delay_accuracy_witness:
  "(case task_delay 2 (example_kernel mixed_tasks 6 1) of
      None \<Rightarrow> False
    | Some s1 \<Rightarrow>
       (case run [Switch 0x2001FFA0, Tick] s1 of
          None \<Rightarrow> False
        | Some s2 \<Rightarrow> ticks [Switch 0x2001FFA0, Tick] = 1
            \<and> current_state (user_tasks s2 ! 1) = 0xFF \<and> g_tick_count s2 = 7
            \<and> current_state (user_tasks (SysTick_Handler s2) ! 1) = 0
            \<and> g_tick_count (SysTick_Handler s2) = 8))"
proof -
  let ?K = "example_kernel mixed_tasks 6 1"
  let ?evs = "[Switch 0x2001FFA0, Tick]"
  have len: "length (user_tasks ?K) = MAX_TASKS" and c: "unat (current_task ?K) = 1"
    and g: "g_tick_count ?K = 6"
    by code_simp+
  have d: "(2 :: u32) \<noteq> 0" by simp
  obtain s1 where s1: "task_delay 2 ?K = Some s1"
    using c by (simp add: task_delay_Some MAX_TASKS_def)
  obtain s2 where s2: "run ?evs s1 = Some s2"
    by simp
  have t: "ticks ?evs = 1" by simp
  from delay_accuracy [OF len s1 d s2] show ?thesis
    by (simp add: s1 s2 c g t TASK_BLOCKED_STATE_def TASK_READY_STATE_def del: run.simps)
qed

section \<open>Progress after a delay\<close>

lemma select_closer:
  assumes len: "length (user_tasks s) = MAX_TASKS"
    and cur: "unat (current_task s) < MAX_TASKS"
    and c: "0 < c" "c < MAX_TASKS"
    and rdy: "current_state (user_tasks s ! c) = TASK_READY_STATE"
    and ne: "unat (current_task s) \<noteq> c"
  shows "(c + MAX_TASKS - unat (current_task (update_current_task s))) mod MAX_TASKS
    < (c + MAX_TASKS - unat (current_task s)) mod MAX_TASKS"
proof -
  from length5_cases [OF len [unfolded MAX_TASKS_def]]
  obtain t0 t1 t2 t3 t4 where ts: "user_tasks s = [t0, t1, t2, t3, t4]"
    by blast
  from cur have "unat (current_task s) < 5" by (simp add: MAX_TASKS_def)
  note cc = u8_less5_cases [OF this]
  from c have "c = 1 \<or> c = 2 \<or> c = 3 \<or> c = 4" by (auto simp: MAX_TASKS_def)
  with cc rdy ne show ?thesis
    by (elim disjE)
       (simp_all add: update_current_task_def MAX_TASKS_Suc of_nat_MAX_TASKS Let_def ts
          TASK_READY_STATE_def TASK_BLOCKED_STATE_def)
qed

lemma step_current_bound:
  assumes "step e s = Some s'" and "unat (current_task s) < MAX_TASKS"
  shows "unat (current_task s') < MAX_TASKS"
  using assms by (cases e) (auto simp: PendSV_bound task_delay_frame split: if_splits)

lemma run_current_bound:
  assumes "run evs s = Some s'" and "unat (current_task s) < MAX_TASKS"
  shows "unat (current_task s') < MAX_TASKS"
  using assms
proof (induction evs arbitrary: s)
  case Nil
  then show ?case by simp
next
  case (Cons e es)
  from Cons.prems(1) obtain s1 where s1: "step e s = Some s1" and r: "run es s1 = Some s'"
    by (auto split: option.splits)
  from Cons.IH [OF r step_current_bound [OF s1 Cons.prems(2)]] show ?case .
qed

lemma dist_zero:
  assumes "x < MAX_TASKS" and "c < MAX_TASKS" and "(c + MAX_TASKS - x) mod MAX_TASKS = 0"
  shows "x = c"
proof -
  from assms(1,2) have "x < 5" "c < 5" by (simp_all add: MAX_TASKS_def)
  from less5_cases [OF this(1)] less5_cases [OF this(2)] assms(3) show ?thesis
    by (elim disjE) (simp_all add: MAX_TASKS_def)
qed

lemma dist_bound: "(c + MAX_TASKS - x) mod MAX_TASKS \<le> 4"
proof -
  have "(c + MAX_TASKS - x) mod MAX_TASKS < MAX_TASKS"
    by (simp add: MAX_TASKS_def)
  then show ?thesis by (simp add: MAX_TASKS_def)
qed

lemma of_nat_wrap_u32: "(of_nat (2 ^ 32 - 1) :: u32) + 1 = 0"
  by simp

lemma run_replicate_Tick:
  "run (replicate n Tick @ evs) s = run evs ((SysTick_Handler ^^ n) s)"
  by (induction n arbitrary: s) (simp_all add: funpow_swap1)

lemma ticks_replicate_Tick: "ticks (replicate n Tick) = n"
  by (simp add: ticks_def)

lemma not_selected_while_blocked:
  assumes len: "length (user_tasks s) = MAX_TASKS"
    and c: "0 < c" "c < MAX_TASKS"
    and blk: "current_state (user_tasks s ! c) = TASK_BLOCKED_STATE"
  shows "unat (current_task (update_current_task s)) \<noteq> c"
proof -
  from length5_cases [OF len [unfolded MAX_TASKS_def]]
  obtain t0 t1 t2 t3 t4 where ts: "user_tasks s = [t0, t1, t2, t3, t4]"
    by blast
  from c have "c = 1 \<or> c = 2 \<or> c = 3 \<or> c = 4" by (auto simp: MAX_TASKS_def)
  with u8_mod5_cases [of "current_task s + 1"] blk show ?thesis
    by (elim disjE)
       (simp_all add: update_current_task_def MAX_TASKS_Suc of_nat_MAX_TASKS Let_def ts
          TASK_READY_STATE_def TASK_BLOCKED_STATE_def)
qed

lemma stays_switched_out:
  assumes "run evs s = Some s'" and "length (user_tasks s) = MAX_TASKS"
    and "0 < c" and "c < MAX_TASKS"
    and "current_state (user_tasks s ! c) = TASK_BLOCKED_STATE"
    and "block_count (user_tasks s ! c) = b"
    and "\<forall>j. 0 < j \<and> j \<le> ticks evs \<longrightarrow> g_tick_count s + of_nat j \<noteq> b"
    and "unat (current_task s) \<noteq> c \<or> 1 \<le> switches evs"
  shows "unat (current_task s') \<noteq> c"
  using assms(1,7,8)
proof (induction evs arbitrary: s' rule: rev_induct)
  case Nil
  then show ?case by simp
next
  case (snoc e es)
  from snoc.prems(1) obtain sm where sm: "run es s = Some sm" and st: "step e sm = Some s'"
    by (auto simp: run_append split: option.splits)
  have nw: "\<forall>j. 0 < j \<and> j \<le> ticks es \<longrightarrow> g_tick_count s + of_nat j \<noteq> b"
    using snoc.prems(2) by simp
  note bm = stays_blocked [OF sm assms(2,4,5,6) nw]
  show ?case
  proof (cases e)
    case Tick
    with st snoc.prems(3) snoc.IH [OF sm nw] show ?thesis by auto
  next
    case (Switch r0)
    with st have "current_task s' = current_task (update_current_task sm)"
      using PendSV_current_task [of sm r0] bm by auto
    with not_selected_while_blocked [of sm c] bm assms(3,4) show ?thesis by simp
  next
    case (Delay d)
    with st have d: "task_delay d sm = Some s'" by (auto split: if_splits)
    from task_delay_frame(2) [OF d] Delay snoc.prems(3) snoc.IH [OF sm nw]
    show ?thesis by auto
  qed
qed

lemma selected_by_switch:
  assumes "run evs s = Some s'" and "length (user_tasks s) = MAX_TASKS"
    and "unat (current_task s) < MAX_TASKS" and "0 < c" and "c < MAX_TASKS"
    and "current_state (user_tasks s ! c) = TASK_READY_STATE"
    and "unat (current_task s) \<noteq> c"
    and "(c + MAX_TASKS - unat (current_task s)) mod MAX_TASKS \<le> switches evs"
  shows "\<exists>p r0 q sa. evs = p @ Switch r0 # q \<and> run p s = Some sa
    \<and> unat (current_task sa) \<noteq> c
    \<and> current_state (user_tasks sa ! c) = TASK_READY_STATE
    \<and> unat (current_task (PendSV_Handler r0 sa)) = c"
  using assms(1,2,3,6,7,8)
proof (induction evs arbitrary: s)
  case Nil
  from Nil.prems(6) have "(c + MAX_TASKS - unat (current_task s)) mod MAX_TASKS = 0"
    by simp
  from dist_zero [OF Nil.prems(3) assms(5) this] Nil.prems(5) show ?case by simp
next
  case (Cons e es)
  from Cons.prems(1) obtain s1 where s1: "step e s = Some s1" and r: "run es s1 = Some s'"
    by (auto split: option.splits)
  have len1: "length (user_tasks s1) = MAX_TASKS"
    using step_length [OF s1] Cons.prems(2) by simp
  have cur1: "unat (current_task s1) < MAX_TASKS"
    by (rule step_current_bound [OF s1 Cons.prems(3)])
  have rdy1: "current_state (user_tasks s1 ! c) = TASK_READY_STATE"
  proof (cases e)
    case Tick
    with s1 Cons.prems(4) show ?thesis
      by (auto simp: SysTick_nth [OF Cons.prems(2) assms(5)])
  next
    case (Switch r0)
    with s1 Cons.prems(4) show ?thesis by auto
  next
    case (Delay d)
    with s1 have d: "task_delay d s = Some s1" by (auto split: if_splits)
    from task_delay_nth [OF d] Cons.prems(4,5) show ?thesis by auto
  qed
  show ?case
  proof (cases "\<exists>r0. e = Switch r0 \<and> unat (current_task s1) = c")
    case True
    then obtain r0 where e: "e = Switch r0" and sel: "unat (current_task s1) = c"
      by blast
    from e s1 have "s1 = PendSV_Handler r0 s" by simp
    with sel e Cons.prems(4,5) have "e # es = [] @ Switch r0 # es \<and> run [] s = Some s
        \<and> unat (current_task s) \<noteq> c
        \<and> current_state (user_tasks s ! c) = TASK_READY_STATE
        \<and> unat (current_task (PendSV_Handler r0 s)) = c"
      by simp
    then show ?thesis by blast
  next
    case False
    have ne1: "unat (current_task s1) \<noteq> c"
    proof (cases e)
      case Tick
      with s1 Cons.prems(5) show ?thesis by auto
    next
      case (Switch r0)
      with False show ?thesis by simp
    next
      case (Delay d)
      with s1 have d: "task_delay d s = Some s1" by (auto split: if_splits)
      from task_delay_frame(2) [OF d] Cons.prems(5) show ?thesis by simp
    qed
    have dist1: "(c + MAX_TASKS - unat (current_task s1)) mod MAX_TASKS \<le> switches es"
    proof (cases e)
      case Tick
      with s1 Cons.prems(6) show ?thesis by auto
    next
      case (Switch r0)
      with s1 have "current_task s1 = current_task (update_current_task s)"
        by (auto simp: PendSV_current_task [OF Cons.prems(2)])
      with select_closer [OF Cons.prems(2,3) assms(4,5) Cons.prems(4,5)] Cons.prems(6) Switch
      show ?thesis by simp
    next
      case (Delay d)
      with s1 have d: "task_delay d s = Some s1" by (auto split: if_splits)
      from task_delay_frame(2) [OF d] Cons.prems(6) Delay show ?thesis by simp
    qed
    from Cons.IH [OF r len1 cur1 rdy1 ne1 dist1]
    obtain p r0 q sa where "es = p @ Switch r0 # q" "run p s1 = Some sa"
      "unat (current_task sa) \<noteq> c"
      "current_state (user_tasks sa ! c) = TASK_READY_STATE"
      "unat (current_task (PendSV_Handler r0 sa)) = c"
      by blast
    with s1 have "e # es = (e # p) @ Switch r0 # q \<and> run (e # p) s = Some sa
        \<and> unat (current_task sa) \<noteq> c
        \<and> current_state (user_tasks sa ! c) = TASK_READY_STATE
        \<and> unat (current_task (PendSV_Handler r0 sa)) = c"
      by simp
    then show ?thesis by blast
  qed
qed

lemma switches_replicate_Tick: "switches (replicate n Tick) = 0"
  by (induction n) simp_all

text \<open>
  C2, as the code has it. Let a user task call \<open>task_delay 0\<close> when the tick counter is
  \<open>T\<close>. The call is not a yield: the caller is BLOCKED with wake tick \<open>T\<close>, and in every
  run of ticks, switches and delay calls of running tasks it stays BLOCKED while fewer
  than \<open>2 ^ 32\<close> ticks have fired, and after the first switch it is not the current
  task. The firing number \<open>2 ^ 32\<close>, at which the 32-bit counter is \<open>T\<close> again, makes it
  READY, and one of the next four context switches, run while the caller is READY and
  not current, makes it the current task.
\<close>

theorem delay_zero_sleeps_full_period:
  assumes "length (user_tasks s) = MAX_TASKS" and "task_delay 0 s = Some s1"
    and "current_task s \<noteq> 0"
    and "run (evs1 @ Tick # evs2) s1 = Some s2"
    and "ticks evs1 = 2 ^ 32 - 1" and "1 \<le> switches evs1" and "4 \<le> switches evs2"
  shows "(\<forall>p q s'. evs1 = p @ q \<and> run p s1 = Some s' \<longrightarrow>
            current_state (user_tasks s' ! unat (current_task s)) = TASK_BLOCKED_STATE
            \<and> (1 \<le> switches p \<longrightarrow> current_task s' \<noteq> current_task s))
    \<and> (\<exists>p r0 q sa. evs2 = p @ Switch r0 # q \<and> run (evs1 @ Tick # p) s1 = Some sa
            \<and> current_task sa \<noteq> current_task s
            \<and> current_state (user_tasks sa ! unat (current_task s)) = TASK_READY_STATE
            \<and> current_task (PendSV_Handler r0 sa) = current_task s
            \<and> current_state (user_tasks (PendSV_Handler r0 sa) ! unat (current_task s))
                = TASK_READY_STATE)"
proof -
  let ?c = "unat (current_task s)"
  note fr = task_delay_frame [OF assms(2)]
  note self = task_delay_self [OF assms(2,1)]
  have len1: "length (user_tasks s1) = MAX_TASKS"
    using fr(3) assms(1) by simp
  have cpos: "0 < ?c"
    using assms(3) by (simp add: unat_gt_0)
  have b: "block_count (user_tasks s1 ! ?c) = g_tick_count s1"
    using self(2) by (simp add: fr(1))
  have nowake: "\<forall>j. 0 < j \<and> j \<le> ticks p \<longrightarrow> g_tick_count s1 + of_nat j \<noteq> g_tick_count s1"
    if lt: "ticks p < 2 ^ 32" for p
  proof (intro allI impI)
    fix j assume j: "0 < j \<and> j \<le> ticks p"
    with lt have "j < 2 ^ LENGTH(32)" by simp
    with j have "(of_nat j :: u32) \<noteq> 0"
      by (intro of_nat_neq_0) simp_all
    then show "g_tick_count s1 + of_nat j \<noteq> g_tick_count s1" by simp
  qed
  have sleep: "length (user_tasks s') = MAX_TASKS
      \<and> current_state (user_tasks s' ! ?c) = TASK_BLOCKED_STATE
      \<and> block_count (user_tasks s' ! ?c) = g_tick_count s1
      \<and> g_tick_count s' = g_tick_count s1 + of_nat (ticks p)"
    if r: "run p s1 = Some s'" and lt: "ticks p < 2 ^ 32" for p s'
    by (rule stays_blocked [OF r len1 fr(4) self(1) b nowake [OF lt]])
  have out: "unat (current_task s') \<noteq> ?c"
    if r: "run p s1 = Some s'" and lt: "ticks p < 2 ^ 32" and sw: "1 \<le> switches p" for p s'
    using stays_switched_out [OF r len1 cpos fr(4) self(1) b nowake [OF lt]] sw by simp
  have first: "\<forall>p q s'. evs1 = p @ q \<and> run p s1 = Some s' \<longrightarrow>
      current_state (user_tasks s' ! ?c) = TASK_BLOCKED_STATE
      \<and> (1 \<le> switches p \<longrightarrow> current_task s' \<noteq> current_task s)"
  proof (intro allI impI)
    fix p q s' assume h: "evs1 = p @ q \<and> run p s1 = Some s'"
    then have "ticks p \<le> ticks evs1" by simp
    with assms(5) have lt: "ticks p < 2 ^ 32" by simp
    have "current_task s' \<noteq> current_task s" if "1 \<le> switches p"
      using out [OF _ lt that] h by auto
    with sleep [OF _ lt] h
    show "current_state (user_tasks s' ! ?c) = TASK_BLOCKED_STATE
        \<and> (1 \<le> switches p \<longrightarrow> current_task s' \<noteq> current_task s)"
      by blast
  qed
  from assms(4) obtain sa where sa: "run evs1 s1 = Some sa"
    and rb: "run evs2 (SysTick_Handler sa) = Some s2"
    by (auto simp: run_append split: option.splits)
  have lt: "ticks evs1 < 2 ^ 32" using assms(5) by simp
  note za = sleep [OF sa lt]
  have "g_tick_count sa + 1 = g_tick_count s1 + (of_nat (2 ^ 32 - 1) + 1)"
    using za assms(5) by (simp add: add.assoc)
  then have g: "g_tick_count sa + 1 = g_tick_count s1"
    by (simp only: of_nat_wrap_u32) simp
  have rdy: "current_state (user_tasks (SysTick_Handler sa) ! ?c) = TASK_READY_STATE"
    using SysTick_nth [of sa ?c] za fr(4) g BLOCKED_not_READY by simp
  have lenb: "length (user_tasks (SysTick_Handler sa)) = MAX_TASKS"
    using za by simp
  have "unat (current_task s1) < MAX_TASKS"
    using fr(2,4) by simp
  from run_current_bound [OF sa this]
  have curb: "unat (current_task (SysTick_Handler sa)) < MAX_TASKS"
    by simp
  have neb: "unat (current_task (SysTick_Handler sa)) \<noteq> ?c"
    using out [OF sa lt assms(6)] by simp
  have "(?c + MAX_TASKS - unat (current_task (SysTick_Handler sa))) mod MAX_TASKS
      \<le> switches evs2"
    using dist_bound [of ?c "unat (current_task (SysTick_Handler sa))"] assms(7) by simp
  from selected_by_switch [OF rb lenb curb cpos fr(4) rdy neb this]
  obtain p r0 q sb where pq: "evs2 = p @ Switch r0 # q"
    and rp: "run p (SysTick_Handler sa) = Some sb"
    and nsel: "unat (current_task sb) \<noteq> ?c"
    and rdyb: "current_state (user_tasks sb ! ?c) = TASK_READY_STATE"
    and sel: "unat (current_task (PendSV_Handler r0 sb)) = ?c"
    by blast
  have "run (evs1 @ Tick # p) s1 = Some sb"
    using sa rp by (simp add: run_append)
  moreover have "current_task sb \<noteq> current_task s"
    using nsel by auto
  moreover have "current_task (PendSV_Handler r0 sb) = current_task s"
    using sel by (simp add: word_unat_eq_iff)
  moreover have "current_state (user_tasks (PendSV_Handler r0 sb) ! ?c) = TASK_READY_STATE"
    using rdyb by simp
  ultimately have "\<exists>p r0 q sa. evs2 = p @ Switch r0 # q
      \<and> run (evs1 @ Tick # p) s1 = Some sa
      \<and> current_task sa \<noteq> current_task s
      \<and> current_state (user_tasks sa ! ?c) = TASK_READY_STATE
      \<and> current_task (PendSV_Handler r0 sa) = current_task s
      \<and> current_state (user_tasks (PendSV_Handler r0 sa) ! ?c) = TASK_READY_STATE"
    using pq rdyb by blast
  with first show ?thesis by blast
qed

theorem delay_zero_sleeps_full_period_witness:
  "(case task_delay 0 (example_kernel ready_tasks 0 1) of
      None \<Rightarrow> False
    | Some s1 \<Rightarrow>
        ticks (Switch 0x2001FFA0 # replicate (2 ^ 32 - 1) Tick) = 2 ^ 32 - 1
        \<and> switches (Switch 0x2001FFA0 # replicate (2 ^ 32 - 1) Tick) = 1
        \<and> (\<exists>p r0 q sa.
              [Switch 0x2001FBA0, Switch 0x2001F7A0, Switch 0x2001F3A0, Switch 0x2001FFA0]
                = p @ Switch r0 # q
              \<and> run ((Switch 0x2001FFA0 # replicate (2 ^ 32 - 1) Tick) @ Tick # p) s1
                  = Some sa
              \<and> current_task sa \<noteq> 1
              \<and> current_task (PendSV_Handler r0 sa) = 1
              \<and> current_state (user_tasks (PendSV_Handler r0 sa) ! 1) = 0))"
proof -
  let ?K = "example_kernel ready_tasks 0 1"
  let ?evs1 = "Switch 0x2001FFA0 # replicate (2 ^ 32 - 1) Tick"
  let ?evs2 = "[Switch 0x2001FBA0, Switch 0x2001F7A0, Switch 0x2001F3A0, Switch 0x2001FFA0]"
  have len: "length (user_tasks ?K) = MAX_TASKS" and c: "unat (current_task ?K) = 1"
    and c1: "current_task ?K = 1" and u: "current_task ?K \<noteq> 0"
    by code_simp+
  obtain s1 where s1: "task_delay 0 ?K = Some s1"
    using c by (simp add: task_delay_Some MAX_TASKS_def)
  obtain s2 where s2: "run (?evs1 @ Tick # ?evs2) s1 = Some s2"
    by (simp add: run_replicate_Tick)
  have t: "ticks ?evs1 = 2 ^ 32 - 1"
    by (simp add: ticks_replicate_Tick)
  have w: "switches ?evs1 = 1"
    by (simp add: switches_replicate_Tick)
  have w1: "1 \<le> switches ?evs1" unfolding w by simp
  have sw: "4 \<le> switches ?evs2" by simp
  have u1: "unat (1 :: u8) = 1" by simp
  note th = delay_zero_sleeps_full_period [OF len s1 u s2 t w1 sw, THEN conjunct2,
      unfolded c1 u1]
  from th obtain p r0 q sa where a: "?evs2 = p @ Switch r0 # q"
    and b: "run (?evs1 @ Tick # p) s1 = Some sa"
    and c: "current_task sa \<noteq> 1"
    and d: "current_task (PendSV_Handler r0 sa) = 1"
    and e: "current_state (user_tasks (PendSV_Handler r0 sa) ! 1) = TASK_READY_STATE"
    by (elim exE conjE)
  have e': "current_state (user_tasks (PendSV_Handler r0 sa) ! 1) = 0"
    using e unfolding TASK_READY_STATE_def .
  have ex: "\<exists>p r0 q sa. ?evs2 = p @ Switch r0 # q
      \<and> run (?evs1 @ Tick # p) s1 = Some sa
      \<and> current_task sa \<noteq> 1
      \<and> current_task (PendSV_Handler r0 sa) = 1
      \<and> current_state (user_tasks (PendSV_Handler r0 sa) ! 1) = 0"
    using a b c d e' by (intro exI conjI)
  show ?thesis
    unfolding s1 option.case using t w ex by (intro conjI)
qed

text \<open>
  C2, as the claim states it, fails: a task that calls \<open>task_delay 0\<close> is not given the
  processor back by the ticks and switches that follow. Task 1 calls \<open>task_delay 0\<close> at
  tick 0 with every task READY; after the switch it pended and twelve timer periods it
  is still BLOCKED, its wake tick 0 is past, and the thirteen selections have gone to
  tasks 2, 3 and 4 only.
\<close>

theorem delay_zero_no_yield_counterexample:
  "\<not> Option.is_none (task_delay 0 (example_kernel ready_tasks 0 1))
   \<and> \<not> Option.is_none
        (run delay0_events (the (task_delay 0 (example_kernel ready_tasks 0 1))))
   \<and> ticks delay0_events = 12 \<and> switches delay0_events = 13
   \<and> map current_state (user_tasks
        (the (run delay0_events (the (task_delay 0 (example_kernel ready_tasks 0 1))))))
       = [0, 0xFF, 0, 0, 0]
   \<and> block_count (user_tasks
        (the (run delay0_events (the (task_delay 0 (example_kernel ready_tasks 0 1))))) ! 1)
       = 0
   \<and> g_tick_count
        (the (run delay0_events (the (task_delay 0 (example_kernel ready_tasks 0 1))))) = 12
   \<and> current_task
        (the (run (take 1 delay0_events) (the (task_delay 0 (example_kernel ready_tasks 0 1)))))
       = 2
   \<and> current_task
        (the (run (take 3 delay0_events) (the (task_delay 0 (example_kernel ready_tasks 0 1)))))
       = 3
   \<and> current_task
        (the (run (take 5 delay0_events) (the (task_delay 0 (example_kernel ready_tasks 0 1)))))
       = 4
   \<and> current_task
        (the (run (take 7 delay0_events) (the (task_delay 0 (example_kernel ready_tasks 0 1)))))
       = 2
   \<and> current_task
        (the (run delay0_events (the (task_delay 0 (example_kernel ready_tasks 0 1))))) = 2"
  by code_simp

section \<open>Round robin\<close>

lemma update_current_task_cong:
  assumes "length (user_tasks s) = MAX_TASKS" and "length (user_tasks s') = MAX_TASKS"
    and "\<forall>i. i < MAX_TASKS \<longrightarrow>
      current_state (user_tasks s ! i) = current_state (user_tasks s' ! i)"
    and "current_task s = current_task s'"
  shows "current_task (update_current_task s) = current_task (update_current_task s')"
  using scan_tasks_states [OF assms(1,2,3), of MAX_TASKS "(current_task s, TASK_BLOCKED_STATE)"]
    assms(4)
  by (simp add: update_current_task_def Let_def)

lemma funpow_update_tasks:
  "user_tasks ((update_current_task ^^ n) s) = user_tasks s"
  by (induction n) simp_all

lemma tick_rounds_snoc: "tick_rounds (rs @ [r0]) = tick_rounds rs @ [Tick, Switch r0]"
  by (simp add: tick_rounds_def)

lemma run_tick_rounds:
  assumes len: "length (user_tasks s) = MAX_TASKS"
    and rdy: "\<forall>i. i < MAX_TASKS \<longrightarrow> current_state (user_tasks s ! i) = TASK_READY_STATE"
  shows "\<exists>s'. run (tick_rounds rs) s = Some s'
    \<and> length (user_tasks s') = MAX_TASKS
    \<and> (\<forall>i. i < MAX_TASKS \<longrightarrow> current_state (user_tasks s' ! i) = TASK_READY_STATE)
    \<and> current_task s' = current_task ((update_current_task ^^ length rs) s)"
proof (induction rs rule: rev_induct)
  case Nil
  show ?case using len rdy by (simp add: tick_rounds_def)
next
  case (snoc r0 rs)
  then obtain sk where sk: "run (tick_rounds rs) s = Some sk"
    and lk: "length (user_tasks sk) = MAX_TASKS"
    and rk: "\<forall>i. i < MAX_TASKS \<longrightarrow> current_state (user_tasks sk ! i) = TASK_READY_STATE"
    and ck: "current_task sk = current_task ((update_current_task ^^ length rs) s)"
    by blast
  let ?t = "SysTick_Handler sk"
  let ?u = "(update_current_task ^^ length rs) s"
  have lt: "length (user_tasks ?t) = MAX_TASKS" using lk by simp
  have rt: "\<forall>i. i < MAX_TASKS \<longrightarrow> current_state (user_tasks ?t ! i) = TASK_READY_STATE"
    using rk by (simp add: SysTick_nth [OF lk])
  have "current_task (PendSV_Handler r0 ?t) = current_task (update_current_task ?t)"
    by (rule PendSV_current_task [OF lt])
  also have "\<dots> = current_task (update_current_task ?u)"
    by (rule update_current_task_cong)
       (simp_all add: lk funpow_update_tasks len rt rdy ck)
  finally have c: "current_task (PendSV_Handler r0 ?t)
      = current_task ((update_current_task ^^ length (rs @ [r0])) s)"
    by simp
  have "run (tick_rounds (rs @ [r0])) s = Some (PendSV_Handler r0 ?t)"
    by (simp add: tick_rounds_snoc run_append sk)
  moreover have "length (user_tasks (PendSV_Handler r0 ?t)) = MAX_TASKS"
    using lt by simp
  moreover have "\<forall>i. i < MAX_TASKS \<longrightarrow>
      current_state (user_tasks (PendSV_Handler r0 ?t) ! i) = TASK_READY_STATE"
    using rt by simp
  ultimately show ?case using c by blast
qed

text \<open>
  C1. With \<open>R\<close> the non-idle READY tasks in the order of one circular scan that starts
  at \<open>current + 1\<close> modulo \<open>MAX_TASKS\<close> and \<open>R\<close> not empty, \<open>update_current_task\<close>
  sets the current-task index to the first entry of \<open>R\<close> and leaves the table as it is.
  \<open>R\<close> holds every non-idle READY task exactly once. While the table does not change,
  the successive selections are \<open>R ! 0, R ! 1, ...\<close>, and they start over after
  \<open>length R\<close> selections: each revolution visits every non-idle READY task exactly
  once, in index order starting after the current task. When no task is blocked, the
  selections made by successive timer periods (the tick handler, then the switch it
  pends) follow that same order.
\<close>

theorem round_robin_order:
  assumes "length (user_tasks s) = MAX_TASKS"
    and "unat (current_task s) < MAX_TASKS"
    and "ready_in_scan_order (user_tasks s) (unat (current_task s)) \<noteq> []"
  shows "(let R = ready_in_scan_order (user_tasks s) (unat (current_task s)) in
      unat (current_task (update_current_task s)) = hd R
      \<and> user_tasks (update_current_task s) = user_tasks s
      \<and> distinct R
      \<and> set R = {i. i < MAX_TASKS \<and> ready_user (user_tasks s) i}
      \<and> (\<forall>k. unat (current_task ((update_current_task ^^ Suc k) s)) = R ! (k mod length R))
      \<and> ((\<forall>i. i < MAX_TASKS \<longrightarrow> current_state (user_tasks s ! i) = TASK_READY_STATE) \<longrightarrow>
           (\<forall>rs r0. \<exists>s'. run (tick_rounds (rs @ [r0])) s = Some s'
              \<and> unat (current_task s') = R ! (length rs mod length R))))"
proof -
  let ?R = "ready_in_scan_order (user_tasks s) (unat (current_task s))"
  have "distinct ?R"
    using distinct_scan_order [OF assms(2)] by (simp add: ready_in_scan_order_def)
  moreover have "set ?R = {i. i < MAX_TASKS \<and> ready_user (user_tasks s) i}"
    using set_scan_order [OF assms(2)] by (auto simp: ready_in_scan_order_def)
  moreover have "\<exists>s'. run (tick_rounds (rs @ [r0])) s = Some s'
      \<and> unat (current_task s') = ?R ! (length rs mod length ?R)"
    if "\<forall>i. i < MAX_TASKS \<longrightarrow> current_state (user_tasks s ! i) = TASK_READY_STATE"
    for rs r0
    using run_tick_rounds [OF assms(1) that, of "rs @ [r0]"] revolution_nth [OF assms, of "length rs"]
    by auto
  ultimately show ?thesis
    using select_first [OF assms] revolution_nth [OF assms]
    by (simp add: Let_def)
qed

theorem round_robin_order_witness:
  "ready_in_scan_order (user_tasks (example_kernel mixed_tasks 6 1)) 1 = [3, 1]
   \<and> unat (current_task ((update_current_task ^^ Suc 0) (example_kernel mixed_tasks 6 1))) = 3
   \<and> unat (current_task ((update_current_task ^^ Suc 1) (example_kernel mixed_tasks 6 1))) = 1
   \<and> unat (current_task ((update_current_task ^^ Suc 2) (example_kernel mixed_tasks 6 1))) = 3
   \<and> unat (current_task ((update_current_task ^^ Suc 3) (example_kernel mixed_tasks 6 1))) = 1
   \<and> ready_in_scan_order (user_tasks (example_kernel ready_tasks 0 1)) 1 = [2, 3, 4, 1]
   \<and> (\<exists>s'. run (tick_rounds ([0x2001FFA0, 0x2001FBA0] @ [0x2001F7A0]))
              (example_kernel ready_tasks 0 1) = Some s'
         \<and> unat (current_task s') = 4)"
proof -
  let ?s = "example_kernel mixed_tasks 6 1"
  let ?t = "example_kernel ready_tasks 0 1"
  have len: "length (user_tasks ?s) = MAX_TASKS"
    and c: "unat (current_task ?s) < MAX_TASKS"
    and R: "ready_in_scan_order (user_tasks ?s) 1 = [3, 1]"
    and R': "ready_in_scan_order (user_tasks ?s) (unat (current_task ?s)) = [3, 1]"
    by code_simp+
  have ne: "ready_in_scan_order (user_tasks ?s) (unat (current_task ?s)) \<noteq> []"
    by (simp add: R')
  note rr = round_robin_order [OF len c ne, unfolded Let_def R', THEN conjunct2,
      THEN conjunct2, THEN conjunct2, THEN conjunct2, THEN conjunct1, rule_format]
  have m: "(0::nat) mod 2 = 0" "(1::nat) mod 2 = 1" "(2::nat) mod 2 = 0" "(3::nat) mod 2 = 1"
    by simp_all
  have l: "length [3, 1::nat] = 2" by simp
  have first: "unat (current_task ((update_current_task ^^ Suc 0) ?s)) = 3
    \<and> unat (current_task ((update_current_task ^^ Suc 1) ?s)) = 1
    \<and> unat (current_task ((update_current_task ^^ Suc 2) ?s)) = 3
    \<and> unat (current_task ((update_current_task ^^ Suc 3) ?s)) = 1"
    using rr [of 0] rr [of 1] rr [of 2] rr [of 3] unfolding l m by simp
  have lent: "length (user_tasks ?t) = MAX_TASKS"
    and ct: "unat (current_task ?t) < MAX_TASKS"
    and T: "ready_in_scan_order (user_tasks ?t) 1 = [2, 3, 4, 1]"
    and T': "ready_in_scan_order (user_tasks ?t) (unat (current_task ?t)) = [2, 3, 4, 1]"
    by code_simp+
  have net: "ready_in_scan_order (user_tasks ?t) (unat (current_task ?t)) \<noteq> []"
    by (simp add: T')
  have allr: "\<forall>i. i < MAX_TASKS \<longrightarrow> current_state (user_tasks ?t ! i) = TASK_READY_STATE"
  proof (intro allI impI)
    fix i assume "i < MAX_TASKS"
    then have "i < 5" by (simp add: MAX_TASKS_def)
    from less5_cases [OF this]
    show "current_state (user_tasks ?t ! i) = TASK_READY_STATE"
      by (elim disjE)
         (simp_all add: example_kernel_def ready_tasks_def example_tcb_def
            TASK_READY_STATE_def)
  qed
  note tt = round_robin_order [OF lent ct net, unfolded Let_def T', THEN conjunct2,
      THEN conjunct2, THEN conjunct2, THEN conjunct2, THEN conjunct2, rule_format,
      OF allr [rule_format], of "[0x2001FFA0, 0x2001FBA0]" "0x2001F7A0"]
  have "\<exists>s'. run (tick_rounds ([0x2001FFA0, 0x2001FBA0] @ [0x2001F7A0])) ?t = Some s'
      \<and> unat (current_task s') = 4"
    using tt by simp
  with R T first show ?thesis by blast
qed

end
